theory Spec2Isabelle
  imports Main
begin

section \<open>The dynamic state service\<close>

text \<open>
  The development embeds \<^verbatim>\<open>src/dynamic-state.service.ts\<close>: the abstract class
  \<^verbatim>\<open>DynamicStateService\<close> with its private \<^verbatim>\<open>Map\<close> of values, its private
  \<^verbatim>\<open>Subject\<close> of updated names, and the observables its methods derive from them.

  The service is written against RxJS. The operators it pipes together are library code;
  they are modelled here by what they do to passive subscribers (handlers that only
  record what they are given, and what the store holds when they are completed):
  \<^item> \<^verbatim>\<open>Subject.next\<close> hands the name to every current observer, unless the subject has
    been completed; \<^verbatim>\<open>Subject.complete\<close> completes every observer once; subscribing to
    a completed subject completes the new observer at once.
  \<^item> \<^verbatim>\<open>startWith(name)\<close> hands \<^verbatim>\<open>name\<close> to each new subscription before the
    subscription to the subject is made.
  \<^item> \<^verbatim>\<open>shareReplay({ bufferSize, refCount: true })\<close> keeps, per observable, one
    \<^verbatim>\<open>ReplaySubject\<close> and one subscription to its source while the observable has
    subscribers; a new subscriber is first given the buffered values; when the last
    subscriber leaves an uncompleted source both are dropped; when the source completes
    the buffer is kept.
  \<^item> \<^verbatim>\<open>distinctUntilChanged(f)\<close> keeps, per subscription, the last value it let
    through.
  \<^item> \<^verbatim>\<open>pipe(op1, ..., opn)\<close> applies each \<open>op\<close> as a function, so an operator that
    is \<^verbatim>\<open>undefined\<close> raises a \<^verbatim>\<open>TypeError\<close>.
\<close>

subsection \<open>Values\<close>

text \<open>
  The values a slot may hold. Numbers are integers here; an object is its reference
  and a snapshot of its fields.
\<close>

datatype jsval =
    JUndefined
  | JNull
  | JBool bool
  | JNum int
  | JStr string
  | JObj nat "(string \<times> int) list"

type_synonym comparator = "jsval \<Rightarrow> jsval \<Rightarrow> bool"

text \<open>\<^verbatim>\<open>Object.is\<close>: objects are the same when their references are, the rest by value.\<close>

primrec reference :: "jsval \<Rightarrow> nat option" where
  "reference JUndefined = None"
| "reference JNull = None"
| "reference (JBool b) = None"
| "reference (JNum n) = None"
| "reference (JStr x) = None"
| "reference (JObj r fs) = Some r"


definition object_is :: comparator where
  "object_is a b =
     (case (reference a, reference b) of
        (Some r, Some r') \<Rightarrow> r = r'
      | (None, None) \<Rightarrow> a = b
      | _ \<Rightarrow> False)"


datatype error = TypeError

subsection \<open>Options\<close>

text \<open>
  \<^verbatim>\<open>IStateOpts\<close> and \<^verbatim>\<open>IStateOptsWithDistinct\<close>. The property \<^verbatim>\<open>buffer\<close> may be left
  out, given as \<^verbatim>\<open>undefined\<close>, or given as a number; \<^verbatim>\<open>initialValue\<close> left out reads as
  \<^verbatim>\<open>undefined\<close>.
\<close>

datatype buffer_opt = NoBuffer | BufferUndefined | Buffer int

record state_opts =
  buffer :: buffer_opt
  initialValue :: jsval

record state_opts_distinct = state_opts +
  distinctFn :: "comparator option"

subsection \<open>State\<close>

text \<open>
  One subscription to a derived observable, with what its handlers have been given:
  the values, and the completion. \<open>found\<close> is the store as the completion handler
  finds it when it runs, should it read it.
\<close>

record subscriber =
  active :: bool
  received :: "jsval list"
  completed :: bool
  found :: "(string \<rightharpoonup> jsval) option"
  previousKey :: "jsval option"

text \<open>What \<^verbatim>\<open>shareReplay\<close> holds while connected: the replay buffer, and whether the
  source has completed.\<close>

record share =
  replay :: "jsval list"
  hasCompleted :: bool

text \<open>
  An observable returned by \<^verbatim>\<open>stateValue$\<close> or \<^verbatim>\<open>stateValueDistinct$\<close>. The
  subscribers stay listed after they have left (\<open>active\<close> false), so that what they
  were given can still be read.
\<close>

record derived =
  dname :: string
  bufferSize :: int
  comparator :: "comparator option"
  shared :: "share option"
  observers :: "subscriber list"

text \<open>
  The service: \<^verbatim>\<open>#stateValue\<close>, whether \<^verbatim>\<open>#stateValueUpdated$\<close> has been completed,
  and the observables handed out so far. A connected, uncompleted observable is an
  observer of \<^verbatim>\<open>#stateValueUpdated$\<close>.
\<close>

record service =
  store :: "string \<rightharpoonup> jsval"
  stopped :: bool
  streams :: "derived list"

definition new_service :: service where
  "new_service = \<lparr>store = Map.empty, stopped = False, streams = []\<rparr>"

subsection \<open>The RxJS operators\<close>

definition fresh_subscriber :: subscriber where
  "fresh_subscriber =
     \<lparr>active = True, received = [], completed = False, found = None, previousKey = None\<rparr>"

text \<open>A value reaches a subscription, through \<^verbatim>\<open>distinctUntilChanged\<close> when there is one.\<close>

definition deliver :: "comparator option \<Rightarrow> jsval \<Rightarrow> subscriber \<Rightarrow> subscriber" where
  "deliver cmp v u =
     (if \<not> active u then u
      else case cmp of
        None \<Rightarrow> u\<lparr>received := received u @ [v]\<rparr>
      | Some f \<Rightarrow>
          (case previousKey u of
             None \<Rightarrow> u\<lparr>received := received u @ [v], previousKey := Some v\<rparr>
           | Some p \<Rightarrow>
               if f p v then u
               else u\<lparr>received := received u @ [v], previousKey := Some v\<rparr>))"

text \<open>The completion reaches a subscription while the store is \<open>m\<close>.\<close>

definition finish :: "(string \<rightharpoonup> jsval) \<Rightarrow> subscriber \<Rightarrow> subscriber" where
  "finish m u =
     (if active u then u\<lparr>active := False, completed := True, found := Some m\<rparr> else u)"

text \<open>The \<^verbatim>\<open>ReplaySubject\<close> keeps the last \<open>max 1 bufferSize\<close> values.\<close>

definition trim :: "int \<Rightarrow> jsval list \<Rightarrow> jsval list" where
  "trim n xs = drop (length xs - nat (max 1 n)) xs"

text \<open>The connection hands a value to the \<^verbatim>\<open>ReplaySubject\<close>, which hands it on.\<close>

definition emit :: "jsval \<Rightarrow> derived \<Rightarrow> derived" where
  "emit v d =
     (case shared d of
        None \<Rightarrow> d
      | Some sh \<Rightarrow>
          if hasCompleted sh then d
          else d\<lparr>shared := Some (sh\<lparr>replay := trim (bufferSize d) (replay sh @ [v])\<rparr>),
                 observers := map (deliver (comparator d) v) (observers d)\<rparr>)"

definition complete_share :: "(string \<rightharpoonup> jsval) \<Rightarrow> derived \<Rightarrow> derived" where
  "complete_share m d =
     (case shared d of
        None \<Rightarrow> d
      | Some sh \<Rightarrow>
          if hasCompleted sh then d
          else d\<lparr>shared := Some (sh\<lparr>hasCompleted := True\<rparr>),
                 observers := map (finish m) (observers d)\<rparr>)"

subsection \<open>The service's methods\<close>

definition get_value :: "(string \<rightharpoonup> jsval) \<Rightarrow> string \<Rightarrow> jsval" where
  "get_value m name = (case m name of None \<Rightarrow> JUndefined | Some v \<Rightarrow> v)"

definition hasStateValue :: "string \<Rightarrow> service \<Rightarrow> bool" where
  "hasStateValue name s = (store s name \<noteq> None)"

text \<open>
  The pipe of \<^verbatim>\<open>stateValue$\<close> from \<^verbatim>\<open>startWith\<close> on, for one trigger:
  \<^verbatim>\<open>filter(() => this.hasStateValue(name))\<close>, then
  \<^verbatim>\<open>map(() => this.stateValue<T>(name) as T)\<close>.
\<close>

definition check_now :: "(string \<rightharpoonup> jsval) \<Rightarrow> derived \<Rightarrow> derived" where
  "check_now m d =
     (if m (dname d) \<noteq> None then emit (get_value m (dname d)) d else d)"

text \<open>\<^verbatim>\<open>filter(stateUpdated => stateUpdated === name)\<close> in front of it.\<close>

definition on_update :: "string \<Rightarrow> (string \<rightharpoonup> jsval) \<Rightarrow> derived \<Rightarrow> derived" where
  "on_update updated m d = (if updated = dname d then check_now m d else d)"

text \<open>\<^verbatim>\<open>this.#stateValueUpdated$.next(name)\<close> and \<^verbatim>\<open>.complete()\<close>.\<close>

definition next_updated :: "string \<Rightarrow> service \<Rightarrow> service" where
  "next_updated name s =
     (if stopped s then s
      else s\<lparr>streams := map (on_update name (store s)) (streams s)\<rparr>)"

definition complete_updated :: "service \<Rightarrow> service" where
  "complete_updated s =
     (if stopped s then s
      else s\<lparr>stopped := True, streams := map (complete_share (store s)) (streams s)\<rparr>)"

definition stateValue :: "string \<Rightarrow> jsval \<Rightarrow> service \<Rightarrow> jsval \<times> service" where
  "stateValue name v s =
     (if v = JUndefined then (get_value (store s) name, s)
      else (JUndefined, next_updated name (s\<lparr>store := (store s)(name \<mapsto> v)\<rparr>)))"

text \<open>\<^verbatim>\<open>of(this.stateValue<T>(name))\<close>: the one value the observable will give.\<close>

definition stateValueOnce_obs :: "string \<Rightarrow> service \<Rightarrow> jsval list" where
  "stateValueOnce_obs name s = [fst (stateValue name JUndefined s)]"

definition removeStateValue :: "string \<Rightarrow> service \<Rightarrow> service" where
  "removeStateValue name s = s\<lparr>store := (store s)(name := None)\<rparr>"

definition clearStateValues :: "service \<Rightarrow> service" where
  "clearStateValues s = s\<lparr>store := Map.empty\<rparr>"

text \<open>The callback given to \<^verbatim>\<open>inject(DestroyRef).onDestroy\<close> in the constructor.\<close>

definition onDestroy :: "service \<Rightarrow> service" where
  "onDestroy s = (let s1 = complete_updated s in s1\<lparr>store := Map.empty\<rparr>)"

text \<open>\<^verbatim>\<open>opts = { ...{ buffer: 1 }, ...opts }\<close> and the two reads of it.\<close>

definition buffer_of :: "('a state_opts_scheme) option \<Rightarrow> buffer_opt" where
  "buffer_of opts =
     (case opts of
        None \<Rightarrow> Buffer 1
      | Some opt \<Rightarrow> (case buffer opt of NoBuffer \<Rightarrow> Buffer 1 | b \<Rightarrow> b))"

definition initial_of :: "('a state_opts_scheme) option \<Rightarrow> jsval" where
  "initial_of opts = (case opts of None \<Rightarrow> JUndefined | Some opt \<Rightarrow> initialValue opt)"

definition new_derived :: "string \<Rightarrow> int \<Rightarrow> derived" where
  "new_derived name n =
     \<lparr>dname = name, bufferSize = n, comparator = None, shared = None, observers = []\<rparr>"

text \<open>
  The seeding at the head of \<^verbatim>\<open>stateValue$\<close>:
  \<^verbatim>\<open>if (opts?.initialValue !== undefined && !this.#stateValue.has(name))
    this.stateValue(name, opts.initialValue)\<close>.
\<close>

definition seed :: "string \<Rightarrow> jsval \<Rightarrow> service \<Rightarrow> service" where
  "seed name initial s =
     (if initial \<noteq> JUndefined \<and> \<not> hasStateValue name s
      then snd (stateValue name initial s) else s)"

text \<open>
  \<^verbatim>\<open>stateValue$\<close>. The result is the index of the new observable in \<open>streams\<close>, or
  the \<^verbatim>\<open>TypeError\<close> of \<^verbatim>\<open>pipe\<close> when \<^verbatim>\<open>opts?.buffer\<close> is falsy and the last operator
  is \<^verbatim>\<open>undefined\<close>. The seeding comes first and stays done in both cases.
\<close>

definition stateValue_obs ::
  "string \<Rightarrow> ('a state_opts_scheme) option \<Rightarrow> service \<Rightarrow> (error + nat) \<times> service" where
  "stateValue_obs name opts s =
     (let s1 = seed name (initial_of opts) s
      in case buffer_of opts of
           Buffer n \<Rightarrow>
             if n \<noteq> 0
             then (Inr (length (streams s1)), s1\<lparr>streams := streams s1 @ [new_derived name n]\<rparr>)
             else (Inl TypeError, s1)
         | _ \<Rightarrow> (Inl TypeError, s1))"

definition defaultDistinctFn :: comparator where
  "defaultDistinctFn = (\<lambda>a b. object_is a b)"

definition distinct_of :: "state_opts_distinct option \<Rightarrow> comparator" where
  "distinct_of opts =
     (case opts of
        None \<Rightarrow> defaultDistinctFn
      | Some opt \<Rightarrow> (case distinctFn opt of None \<Rightarrow> defaultDistinctFn | Some f \<Rightarrow> f))"

text \<open>\<^verbatim>\<open>stateValueDistinct$\<close>: the observable of \<^verbatim>\<open>stateValue$\<close> piped through
  \<^verbatim>\<open>distinctUntilChanged\<close>.\<close>

definition stateValueDistinct_obs ::
  "string \<Rightarrow> state_opts_distinct option \<Rightarrow> service \<Rightarrow> (error + nat) \<times> service" where
  "stateValueDistinct_obs name opts s =
     (case stateValue_obs name opts s of
        (Inl e, s1) \<Rightarrow> (Inl e, s1)
      | (Inr k, s1) \<Rightarrow>
          (Inr k, s1\<lparr>streams :=
                      (streams s1)[k := (streams s1 ! k)\<lparr>comparator := Some (distinct_of opts)\<rparr>]\<rparr>))"

subsection \<open>Subscribing\<close>

text \<open>
  A subscription to a derived observable. An observable that is connected replays its
  buffer to the newcomer, and completes it when its source has completed. One that is
  not makes a new \<^verbatim>\<open>ReplaySubject\<close>, adds the newcomer and connects: the
  \<^verbatim>\<open>startWith\<close> trigger runs, then the source subscribes to
  \<^verbatim>\<open>#stateValueUpdated$\<close>, which completes it at once when already completed.
\<close>

definition subscribe_derived :: "(string \<rightharpoonup> jsval) \<Rightarrow> bool \<Rightarrow> derived \<Rightarrow> derived" where
  "subscribe_derived m stp d =
     (case shared d of
        Some sh \<Rightarrow>
          (let u = foldl (\<lambda>u v. deliver (comparator d) v u) fresh_subscriber (replay sh)
           in d\<lparr>observers := observers d @ [if hasCompleted sh then finish m u else u]\<rparr>)
      | None \<Rightarrow>
          (let d1 = d\<lparr>shared := Some \<lparr>replay = [], hasCompleted = False\<rparr>,
                      observers := observers d @ [fresh_subscriber]\<rparr>;
               d2 = check_now m d1
           in if stp then complete_share m d2 else d2))"

definition subscribe :: "nat \<Rightarrow> service \<Rightarrow> service" where
  "subscribe k s =
     (if k < length (streams s)
      then s\<lparr>streams := (streams s)[k := subscribe_derived (store s) (stopped s) (streams s ! k)]\<rparr>
      else s)"

text \<open>
  Subscriber \<open>i\<close> leaves. When it was the last one and the source has not completed,
  \<^verbatim>\<open>refCount: true\<close> drops the connection and the \<^verbatim>\<open>ReplaySubject\<close>.
\<close>

definition unsubscribe_derived :: "nat \<Rightarrow> derived \<Rightarrow> derived" where
  "unsubscribe_derived i d =
     (if i < length (observers d) \<and> active (observers d ! i)
      then
        (let obs = (observers d)[i := (observers d ! i)\<lparr>active := False\<rparr>]
         in case shared d of
              None \<Rightarrow> d\<lparr>observers := obs\<rparr>
            | Some sh \<Rightarrow>
                if list_all (\<lambda>u. \<not> active u) obs \<and> \<not> hasCompleted sh
                then d\<lparr>shared := None, observers := obs\<rparr>
                else d\<lparr>observers := obs\<rparr>)
      else d)"

definition unsubscribe :: "nat \<Rightarrow> nat \<Rightarrow> service \<Rightarrow> service" where
  "unsubscribe k i s =
     (if k < length (streams s)
      then s\<lparr>streams := (streams s)[k := unsubscribe_derived i (streams s ! k)]\<rparr>
      else s)"

subsection \<open>Runs of the service\<close>

datatype op =
    StateValue string jsval
  | StateValueObs string "state_opts option"
  | StateValueDistinctObs string "state_opts_distinct option"
  | Subscribe nat
  | Unsubscribe nat nat
  | RemoveStateValue string
  | ClearStateValues
  | OnDestroy

fun apply_op :: "op \<Rightarrow> service \<Rightarrow> service" where
  "apply_op (StateValue name v) s = snd (stateValue name v s)"
| "apply_op (StateValueObs name opts) s = snd (stateValue_obs name opts s)"
| "apply_op (StateValueDistinctObs name opts) s = snd (stateValueDistinct_obs name opts s)"
| "apply_op (Subscribe k) s = subscribe k s"
| "apply_op (Unsubscribe k i) s = unsubscribe k i s"
| "apply_op (RemoveStateValue name) s = removeStateValue name s"
| "apply_op ClearStateValues s = clearStateValues s"
| "apply_op OnDestroy s = onDestroy s"

definition run :: "op list \<Rightarrow> service \<Rightarrow> service" where
  "run ops s = fold apply_op ops s"

text \<open>What subscriber \<open>i\<close> of observable \<open>k\<close> has been given so far.\<close>

definition log :: "nat \<Rightarrow> nat \<Rightarrow> service \<Rightarrow> jsval list" where
  "log k i s = received (observers (streams s ! k) ! i)"

text \<open>An operation that stores a value under \<open>name\<close>: a set, or a seeding.\<close>

fun writes :: "string \<Rightarrow> op \<Rightarrow> bool" where
  "writes name (StateValue n v) = (n = name \<and> v \<noteq> JUndefined)"
| "writes name (StateValueObs n opts) = (n = name \<and> initial_of opts \<noteq> JUndefined)"
| "writes name (StateValueDistinctObs n opts) = (n = name \<and> initial_of opts \<noteq> JUndefined)"
| "writes name _ = False"

fun is_destroy :: "op \<Rightarrow> bool" where
  "is_destroy OnDestroy = True"
| "is_destroy _ = False"

subsection \<open>The owner\<close>

text \<open>
  The constructor registers one callback with the owner's \<^verbatim>\<open>DestroyRef\<close>:
  \<^verbatim>\<open>inject(DestroyRef).onDestroy(() => { ... })\<close>. \<^verbatim>\<open>DestroyRef\<close> is Angular's:
  when the owner is destroyed it runs the callbacks registered with it, and it keeps none
  of them afterwards. \<open>calls\<close> are the calls of the service's methods made while
  the owner holds the service.
\<close>

record owner =
  svc :: service
  destroyHooks :: "(service \<Rightarrow> service) list"

definition constructor :: owner where
  "constructor = \<lparr>svc = new_service, destroyHooks = [onDestroy]\<rparr>"

definition destroy :: "owner \<Rightarrow> owner" where
  "destroy w = \<lparr>svc = fold (\<lambda>hook s. hook s) (destroyHooks w) (svc w), destroyHooks = []\<rparr>"

definition calls :: "op list \<Rightarrow> owner \<Rightarrow> owner" where
  "calls xs w = w\<lparr>svc := run xs (svc w)\<rparr>"

section \<open>Invariants of the runs\<close>

text \<open>
  An observable is connected when it holds a \<^verbatim>\<open>ReplaySubject\<close> whose source has not
  completed. In every state a run reaches, a source has completed exactly when
  \<^verbatim>\<open>#stateValueUpdated$\<close> has, only a connected observable has active subscribers, and
  \<^verbatim>\<open>distinctUntilChanged\<close> remembers the last value it let through.
\<close>

definition connected :: "derived \<Rightarrow> bool" where
  "connected d = (case shared d of None \<Rightarrow> False | Some sh \<Rightarrow> \<not> hasCompleted sh)"

definition prev_ok :: "subscriber \<Rightarrow> bool" where
  "prev_ok u = (previousKey u = (if received u = [] then None else Some (last (received u))))"

definition wf_derived :: "bool \<Rightarrow> derived \<Rightarrow> bool" where
  "wf_derived stp d =
     ((\<forall>sh. shared d = Some sh \<longrightarrow> hasCompleted sh \<longrightarrow> stp) \<and>
      (stp \<longrightarrow> \<not> connected d) \<and>
      ((\<exists>u\<in>set (observers d). active u) \<longrightarrow> connected d) \<and>
      (comparator d \<noteq> None \<longrightarrow> (\<forall>u\<in>set (observers d). prev_ok u)))"

definition wf_service :: "service \<Rightarrow> bool" where
  "wf_service s = (\<forall>d\<in>set (streams s). wf_derived (stopped s) d)"

text \<open>
  What an operation does to the observable at index \<open>k\<close>, handed out before it.
\<close>

fun dtrans :: "op \<Rightarrow> service \<Rightarrow> nat \<Rightarrow> derived \<Rightarrow> derived" where
  "dtrans (StateValue n v) s k d =
     (if v \<noteq> JUndefined \<and> \<not> stopped s then on_update n ((store s)(n \<mapsto> v)) d else d)"
| "dtrans (StateValueObs n opts) s k d =
     (if initial_of opts \<noteq> JUndefined \<and> store s n = None \<and> \<not> stopped s
      then on_update n ((store s)(n \<mapsto> initial_of opts)) d else d)"
| "dtrans (StateValueDistinctObs n opts) s k d =
     (if initial_of opts \<noteq> JUndefined \<and> store s n = None \<and> \<not> stopped s
      then on_update n ((store s)(n \<mapsto> initial_of opts)) d else d)"
| "dtrans (Subscribe j) s k d =
     (if j = k then subscribe_derived (store s) (stopped s) d else d)"
| "dtrans (Unsubscribe j i) s k d = (if j = k then unsubscribe_derived i d else d)"
| "dtrans (RemoveStateValue n) s k d = d"
| "dtrans ClearStateValues s k d = d"
| "dtrans OnDestroy s k d = (if stopped s then d else complete_share (store s) d)"

text \<open>Subscriber \<open>i\<close> of observable \<open>k\<close> has left.\<close>

definition gone :: "nat \<Rightarrow> nat \<Rightarrow> service \<Rightarrow> bool" where
  "gone k i s =
     (k < length (streams s) \<and> i < length (observers (streams s ! k)) \<and>
      \<not> active (observers (streams s ! k) ! i))"

text \<open>
  The name has no value, observable \<open>k\<close> is an observable for it and has a
  subscriber \<open>i\<close>.
\<close>

definition listed :: "string \<Rightarrow> nat \<Rightarrow> nat \<Rightarrow> service \<Rightarrow> bool" where
  "listed name k i s =
     (store s name = None \<and> k < length (streams s) \<and> dname (streams s ! k) = name \<and>
      i < length (observers (streams s ! k)))"

text \<open>An observable that has handed out nothing and holds nothing to replay.\<close>

definition silent :: "derived \<Rightarrow> bool" where
  "silent d =
     ((\<forall>u\<in>set (observers d). received u = []) \<and> (\<forall>sh. shared d = Some sh \<longrightarrow> replay sh = []))"

text \<open>The name has no value and observable \<open>k\<close>, an observable for it, is silent.\<close>

definition hushed :: "string \<Rightarrow> nat \<Rightarrow> service \<Rightarrow> bool" where
  "hushed name k s =
     (store s name = None \<and> k < length (streams s) \<and> dname (streams s ! k) = name \<and>
      silent (streams s ! k))"

section \<open>Facts about the operators and the methods\<close>

lemma deliver_active [simp]: "active (deliver c v u) = active u"
  by (simp add: deliver_def split: option.splits)

lemma deliver_inactive: "\<not> active u \<Longrightarrow> deliver c v u = u"
  by (simp add: deliver_def)

lemma deliver_plain: "active u \<Longrightarrow> received (deliver None v u) = received u @ [v]"
  by (simp add: deliver_def)

lemma deliver_prev_ok: "prev_ok u \<Longrightarrow> prev_ok (deliver (Some f) v u)"
  by (simp add: deliver_def prev_ok_def split: option.splits)

lemma finish_inactive [simp]: "\<not> active (finish m u)"
  by (simp add: finish_def)

lemma finish_received [simp]: "received (finish m u) = received u"
  by (simp add: finish_def)

lemma finish_prev_ok [simp]: "prev_ok (finish m u) = prev_ok u"
  by (simp add: finish_def prev_ok_def)

lemma emit_fields [simp]:
  "dname (emit v d) = dname d" "bufferSize (emit v d) = bufferSize d"
  "comparator (emit v d) = comparator d" "length (observers (emit v d)) = length (observers d)"
  "connected (emit v d) = connected d"
  by (simp_all add: emit_def connected_def split: option.splits)

lemma check_now_fields [simp]:
  "dname (check_now m d) = dname d" "bufferSize (check_now m d) = bufferSize d"
  "comparator (check_now m d) = comparator d"
  "length (observers (check_now m d)) = length (observers d)"
  "connected (check_now m d) = connected d"
  by (simp_all add: check_now_def)

lemma on_update_fields [simp]:
  "dname (on_update n m d) = dname d" "bufferSize (on_update n m d) = bufferSize d"
  "comparator (on_update n m d) = comparator d"
  "length (observers (on_update n m d)) = length (observers d)"
  "connected (on_update n m d) = connected d"
  by (simp_all add: on_update_def)

lemma complete_share_fields [simp]:
  "dname (complete_share m d) = dname d" "bufferSize (complete_share m d) = bufferSize d"
  "comparator (complete_share m d) = comparator d"
  "length (observers (complete_share m d)) = length (observers d)"
  "\<not> connected (complete_share m d)"
  by (simp_all add: complete_share_def connected_def split: option.splits)

lemma wf_emit: "wf_derived stp d \<Longrightarrow> wf_derived stp (emit v d)"
  by (cases "comparator d")
     (auto simp: wf_derived_def emit_def connected_def deliver_prev_ok split: option.splits)

lemma wf_check_now: "wf_derived stp d \<Longrightarrow> wf_derived stp (check_now m d)"
  by (simp add: check_now_def wf_emit)

lemma wf_on_update: "wf_derived stp d \<Longrightarrow> wf_derived stp (on_update n m d)"
  by (simp add: on_update_def wf_check_now)

lemma wf_complete_share: "wf_derived stp d \<Longrightarrow> wf_derived True (complete_share m d)"
  by (auto simp: wf_derived_def complete_share_def connected_def split: option.splits)

lemma replay_prev_ok:
  "prev_ok u \<Longrightarrow> prev_ok (foldl (\<lambda>u v. deliver (Some f) v u) u vs)"
  by (induction vs arbitrary: u) (simp_all add: deliver_prev_ok)

lemma replay_active [simp]: "active (foldl (\<lambda>u v. deliver c v u) u vs) = active u"
  by (induction vs arbitrary: u) simp_all

lemma fresh_prev_ok [simp]: "prev_ok fresh_subscriber"
  by (simp add: prev_ok_def fresh_subscriber_def)

lemma fresh_active [simp]: "active fresh_subscriber"
  by (simp add: fresh_subscriber_def)

lemma wf_subscribe_derived: "wf_derived stp d \<Longrightarrow> wf_derived stp (subscribe_derived m stp d)"
proof (cases "shared d")
  case None
  assume w: "wf_derived stp d"
  let ?d1 = "d\<lparr>shared := Some \<lparr>replay = [], hasCompleted = False\<rparr>,
               observers := observers d @ [fresh_subscriber]\<rparr>"
  from w None have d1: "wf_derived False ?d1"
    by (auto simp: wf_derived_def connected_def)
  show ?thesis
  proof (cases stp)
    case True
    have "wf_derived True (complete_share m (check_now m ?d1))"
      by (rule wf_complete_share [OF wf_check_now [OF d1]])
    then show ?thesis using None True by (simp add: subscribe_derived_def Let_def)
  next
    case False
    then show ?thesis using None d1 by (simp add: subscribe_derived_def Let_def wf_check_now)
  qed
next
  case (Some sh)
  assume w: "wf_derived stp d"
  then show ?thesis using Some
    by (cases "comparator d")
       (auto simp: wf_derived_def subscribe_derived_def Let_def connected_def replay_prev_ok)
qed

lemma prev_ok_leave [simp]: "prev_ok (u\<lparr>active := b\<rparr>) = prev_ok u"
  by (simp add: prev_ok_def)

lemma wf_unsubscribe_derived: "wf_derived stp d \<Longrightarrow> wf_derived stp (unsubscribe_derived i d)"
  apply (cases "shared d")
   apply (auto simp: wf_derived_def unsubscribe_derived_def Let_def connected_def list_all_iff
      dest!: set_update_subset_insert [THEN subsetD] split: if_splits)
  done

lemma wf_new_derived: "wf_derived stp ((new_derived name n)\<lparr>comparator := c\<rparr>)" "wf_derived stp (new_derived name n)"
  by (simp_all add: wf_derived_def new_derived_def connected_def)

lemma next_updated_simps [simp]:
  "store (next_updated n s) = store s"
  "stopped (next_updated n s) = stopped s"
  "length (streams (next_updated n s)) = length (streams s)"
  by (simp_all add: next_updated_def)

lemma next_updated_nth:
  "k < length (streams s) \<Longrightarrow>
   streams (next_updated n s) ! k =
     (if stopped s then streams s ! k else on_update n (store s) (streams s ! k))"
  by (simp add: next_updated_def)

lemma stateValue_simps [simp]:
  "stopped (snd (stateValue n v s)) = stopped s"
  "length (streams (snd (stateValue n v s))) = length (streams s)"
  "store (snd (stateValue n v s)) = (if v = JUndefined then store s else (store s)(n \<mapsto> v))"
  by (simp_all add: stateValue_def)

lemma stateValue_nth:
  "k < length (streams s) \<Longrightarrow>
   streams (snd (stateValue n v s)) ! k = dtrans (StateValue n v) s k (streams s ! k)"
  by (simp add: stateValue_def next_updated_nth)

lemma seed_simps [simp]:
  "stopped (seed n v s) = stopped s"
  "length (streams (seed n v s)) = length (streams s)"
  "store (seed n v s) = (if v \<noteq> JUndefined \<and> store s n = None then (store s)(n \<mapsto> v) else store s)"
  by (simp_all add: seed_def hasStateValue_def)

lemma seed_nth:
  "k < length (streams s) \<Longrightarrow>
   streams (seed n v s) ! k =
     (if v \<noteq> JUndefined \<and> store s n = None \<and> \<not> stopped s
      then on_update n ((store s)(n \<mapsto> v)) (streams s ! k) else streams s ! k)"
  by (simp add: seed_def hasStateValue_def stateValue_nth)

lemma stateValue_obs_simps [simp]:
  "stopped (snd (stateValue_obs n opts s)) = stopped s"
  "store (snd (stateValue_obs n opts s)) = store (seed n (initial_of opts) s)"
  by (simp_all add: stateValue_obs_def Let_def split: buffer_opt.splits)

lemma stateValue_obs_streams:
  "streams (snd (stateValue_obs n opts s)) =
     streams (seed n (initial_of opts) s) @
       (case buffer_of opts of Buffer b \<Rightarrow> if b \<noteq> 0 then [new_derived n b] else [] | _ \<Rightarrow> [])"
  by (simp add: stateValue_obs_def Let_def split: buffer_opt.splits)

lemma stateValue_obs_result:
  "fst (stateValue_obs n opts s) =
     (case buffer_of opts of
        Buffer b \<Rightarrow> if b \<noteq> 0 then Inr (length (streams s)) else Inl TypeError
      | _ \<Rightarrow> Inl TypeError)"
  by (simp add: stateValue_obs_def Let_def split: buffer_opt.splits)

lemma stateValueDistinct_obs_simps [simp]:
  "stopped (snd (stateValueDistinct_obs n opts s)) = stopped s"
  "store (snd (stateValueDistinct_obs n opts s)) = store (seed n (initial_of opts) s)"
  by (simp_all add: stateValueDistinct_obs_def stateValue_obs_def Let_def split: buffer_opt.splits)

lemma update_last: "length xs = n \<Longrightarrow> (xs @ [y])[n := z] = xs @ [z]" "length xs = n \<Longrightarrow> (xs @ [y]) ! n = y"
  by auto

lemma stateValueDistinct_obs_streams:
  "streams (snd (stateValueDistinct_obs n opts s)) =
     streams (seed n (initial_of opts) s) @
       (case buffer_of opts of
          Buffer b \<Rightarrow> if b \<noteq> 0 then [(new_derived n b)\<lparr>comparator := Some (distinct_of opts)\<rparr>] else []
        | _ \<Rightarrow> [])"
  by (simp add: stateValueDistinct_obs_def stateValue_obs_def Let_def update_last split: buffer_opt.splits)

lemma stateValueDistinct_obs_result:
  "fst (stateValueDistinct_obs n opts s) = fst (stateValue_obs n opts s)"
  by (simp add: stateValueDistinct_obs_def stateValue_obs_def Let_def split: buffer_opt.splits)

lemma subscribe_simps [simp]:
  "stopped (subscribe k s) = stopped s" "store (subscribe k s) = store s"
  "stopped (unsubscribe k i s) = stopped s" "store (unsubscribe k i s) = store s"
  "length (streams (subscribe k s)) = length (streams s)"
  "length (streams (unsubscribe k i s)) = length (streams s)"
  by (simp_all add: subscribe_def unsubscribe_def)

lemma remove_simps [simp]:
  "stopped (removeStateValue n s) = stopped s" "streams (removeStateValue n s) = streams s"
  "store (removeStateValue n s) = (store s)(n := None)"
  "stopped (clearStateValues s) = stopped s" "streams (clearStateValues s) = streams s"
  "store (clearStateValues s) = Map.empty"
  by (simp_all add: removeStateValue_def clearStateValues_def)

lemma onDestroy_simps [simp]:
  "stopped (onDestroy s)" "store (onDestroy s) = Map.empty"
  "length (streams (onDestroy s)) = length (streams s)"
  by (simp_all add: onDestroy_def complete_updated_def Let_def)

lemma stopped_apply_op: "stopped (apply_op x s) = (stopped s \<or> is_destroy x)"
  by (cases x)
     (simp_all add: subscribe_def unsubscribe_def removeStateValue_def clearStateValues_def
        onDestroy_def complete_updated_def Let_def)

lemma length_apply_op: "length (streams s) \<le> length (streams (apply_op x s))"
  by (cases x)
     (simp_all add: subscribe_def unsubscribe_def removeStateValue_def clearStateValues_def
        onDestroy_def complete_updated_def Let_def stateValue_obs_streams
        stateValueDistinct_obs_streams)

lemma nth_apply_op:
  "k < length (streams s) \<Longrightarrow> streams (apply_op x s) ! k = dtrans x s k (streams s ! k)"
  by (cases x)
     (simp_all add: subscribe_def unsubscribe_def removeStateValue_def clearStateValues_def
        onDestroy_def complete_updated_def Let_def stateValue_obs_streams
        stateValueDistinct_obs_streams stateValue_nth seed_nth nth_append nth_list_update)

lemma new_apply_op:
  "length (streams s) \<le> k \<Longrightarrow> k < length (streams (apply_op x s)) \<Longrightarrow>
   shared (streams (apply_op x s) ! k) = None \<and> observers (streams (apply_op x s) ! k) = []"
  by (cases x)
     (auto simp: subscribe_def unsubscribe_def removeStateValue_def clearStateValues_def
        onDestroy_def complete_updated_def Let_def stateValue_obs_streams
        stateValueDistinct_obs_streams nth_append new_derived_def split: buffer_opt.splits if_splits)

lemma wf_unconnected: "shared d = None \<Longrightarrow> observers d = [] \<Longrightarrow> wf_derived stp d"
  by (simp add: wf_derived_def connected_def)

lemma wf_dtrans:
  "wf_derived (stopped s) d \<Longrightarrow> wf_derived (stopped (apply_op x s)) (dtrans x s k d)"
  by (cases x)
     (auto simp: wf_on_update wf_subscribe_derived wf_unsubscribe_derived wf_complete_share)

lemma wf_apply_op: "wf_service s \<Longrightarrow> wf_service (apply_op x s)"
  unfolding wf_service_def
proof
  fix d
  assume w: "\<forall>d\<in>set (streams s). wf_derived (stopped s) d"
    and "d \<in> set (streams (apply_op x s))"
  then obtain k where k: "k < length (streams (apply_op x s))" "d = streams (apply_op x s) ! k"
    by (auto simp: in_set_conv_nth)
  show "wf_derived (stopped (apply_op x s)) d"
  proof (cases "k < length (streams s)")
    case True
    then have "wf_derived (stopped s) (streams s ! k)" using w by simp
    then show ?thesis using True k by (simp add: nth_apply_op wf_dtrans)
  next
    case False
    then show ?thesis using k new_apply_op [of s k x] by (simp add: wf_unconnected)
  qed
qed

lemma run_Nil [simp]: "run [] s = s"
  by (simp add: run_def)

lemma run_Cons [simp]: "run (x # xs) s = run xs (apply_op x s)"
  by (simp add: run_def)

lemma run_append [simp]: "run (xs @ ys) s = run ys (run xs s)"
  by (simp add: run_def)

lemma wf_run: "wf_service s \<Longrightarrow> wf_service (run xs s)"
  by (induction xs arbitrary: s) (simp_all add: wf_apply_op)

lemma wf_new_service: "wf_service new_service"
  by (simp add: wf_service_def new_service_def)

lemma wf_reachable: "wf_service (run xs new_service)"
  by (simp add: wf_run wf_new_service)

lemmas service_defs =
  log_def new_service_def stateValue_obs_def stateValueDistinct_obs_def seed_def buffer_of_def
  initial_of_def new_derived_def distinct_of_def defaultDistinctFn_def stateValue_def
  next_updated_def on_update_def check_now_def subscribe_def subscribe_derived_def
  unsubscribe_def unsubscribe_derived_def emit_def deliver_def fresh_subscriber_def trim_def
  get_value_def onDestroy_def complete_updated_def complete_share_def finish_def Let_def
  hasStateValue_def removeStateValue_def clearStateValues_def

lemma stopped_run: "stopped s \<Longrightarrow> stopped (run xs s)"
  by (induction xs arbitrary: s) (simp_all add: stopped_apply_op)

lemma next_updated_stopped: "stopped s \<Longrightarrow> next_updated n s = s"
  by (simp add: next_updated_def)

lemma store_apply_op_defined:
  "store s name \<noteq> Some JUndefined \<Longrightarrow> store (apply_op x s) name \<noteq> Some JUndefined"
  by (cases x) auto

lemma store_run_defined:
  "store s name \<noteq> Some JUndefined \<Longrightarrow> store (run xs s) name \<noteq> Some JUndefined"
  by (induction xs arbitrary: s) (simp_all add: store_apply_op_defined)

lemma connectedD: "connected d \<Longrightarrow> \<exists>sh. shared d = Some sh \<and> \<not> hasCompleted sh"
  by (simp add: connected_def split: option.splits)

lemma connectedI: "shared d = Some sh \<Longrightarrow> \<not> hasCompleted sh \<Longrightarrow> connected d"
  by (simp add: connected_def)

lemma subscribe_derived_fields [simp]:
  "dname (subscribe_derived m stp d) = dname d"
  "bufferSize (subscribe_derived m stp d) = bufferSize d"
  "comparator (subscribe_derived m stp d) = comparator d"
  "length (observers (subscribe_derived m stp d)) = Suc (length (observers d))"
  by (simp_all add: subscribe_derived_def Let_def split: option.splits)

lemma unsubscribe_derived_fields [simp]:
  "dname (unsubscribe_derived i d) = dname d"
  "bufferSize (unsubscribe_derived i d) = bufferSize d"
  "comparator (unsubscribe_derived i d) = comparator d"
  "length (observers (unsubscribe_derived i d)) = length (observers d)"
  by (simp_all add: unsubscribe_derived_def Let_def split: option.splits)

lemma dtrans_fields [simp]:
  "dname (dtrans x s k d) = dname d"
  "bufferSize (dtrans x s k d) = bufferSize d"
  "comparator (dtrans x s k d) = comparator d"
  "length (observers d) \<le> length (observers (dtrans x s k d))"
  by (cases x; simp)+

subsection \<open>A subscriber that has left is given nothing more\<close>

lemma finish_gone: "\<not> active u \<Longrightarrow> finish m u = u"
  by (simp add: finish_def)

lemma emit_gone:
  "i < length (observers d) \<Longrightarrow> \<not> active (observers d ! i) \<Longrightarrow>
   observers (emit v d) ! i = observers d ! i"
  by (simp add: emit_def deliver_inactive split: option.splits)

lemma check_now_gone:
  "i < length (observers d) \<Longrightarrow> \<not> active (observers d ! i) \<Longrightarrow>
   observers (check_now m d) ! i = observers d ! i"
  by (simp add: check_now_def emit_gone)

lemma on_update_gone:
  "i < length (observers d) \<Longrightarrow> \<not> active (observers d ! i) \<Longrightarrow>
   observers (on_update n m d) ! i = observers d ! i"
  by (simp add: on_update_def check_now_gone)

lemma complete_share_gone:
  "i < length (observers d) \<Longrightarrow> \<not> active (observers d ! i) \<Longrightarrow>
   observers (complete_share m d) ! i = observers d ! i"
  by (simp add: complete_share_def finish_gone split: option.splits)

lemma subscribe_derived_gone:
  assumes "i < length (observers d)" "\<not> active (observers d ! i)"
  shows "observers (subscribe_derived m stp d) ! i = observers d ! i"
proof (cases "shared d")
  case None
  let ?d1 = "d\<lparr>shared := Some \<lparr>replay = [], hasCompleted = False\<rparr>,
               observers := observers d @ [fresh_subscriber]\<rparr>"
  have a: "i < length (observers ?d1)" "\<not> active (observers ?d1 ! i)"
    "observers ?d1 ! i = observers d ! i"
    using assms by (simp_all add: nth_append)
  have b: "observers (check_now m ?d1) ! i = observers d ! i"
    using check_now_gone [OF a(1,2)] a(3) by simp
  have c: "observers (complete_share m (check_now m ?d1)) ! i = observers d ! i"
    using complete_share_gone [of i "check_now m ?d1"] a b assms by simp
  show ?thesis using None b c by (simp add: subscribe_derived_def Let_def)
next
  case (Some sh)
  then show ?thesis using assms by (simp add: subscribe_derived_def Let_def nth_append)
qed

lemma unsubscribe_derived_gone:
  "i < length (observers d) \<Longrightarrow> \<not> active (observers d ! i) \<Longrightarrow>
   observers (unsubscribe_derived j d) ! i = observers d ! i"
  by (cases "j = i") (auto simp: unsubscribe_derived_def Let_def split: option.splits)

lemma dtrans_gone:
  "i < length (observers d) \<Longrightarrow> \<not> active (observers d ! i) \<Longrightarrow>
   observers (dtrans x s k d) ! i = observers d ! i"
  by (cases x)
     (simp_all add: on_update_gone subscribe_derived_gone unsubscribe_derived_gone
        complete_share_gone)

lemma gone_apply_op:
  assumes "gone k i s"
  shows "gone k i (apply_op x s) \<and>
         observers (streams (apply_op x s) ! k) ! i = observers (streams s ! k) ! i"
proof -
  from assms have k: "k < length (streams s)" and i: "i < length (observers (streams s ! k))"
    and a: "\<not> active (observers (streams s ! k) ! i)"
    by (simp_all add: gone_def)
  have k': "k < length (streams (apply_op x s))"
    using k length_apply_op [of s x] by simp
  have i': "i < length (observers (dtrans x s k (streams s ! k)))"
    by (rule less_le_trans [OF i dtrans_fields(4)])
  show ?thesis
    using k k' i' a dtrans_gone [OF i a, of x s k] by (simp add: gone_def nth_apply_op)
qed

lemma gone_run:
  "gone k i s \<Longrightarrow>
   gone k i (run xs s) \<and> observers (streams (run xs s) ! k) ! i = observers (streams s ! k) ! i"
proof (induction xs arbitrary: s)
  case Nil
  then show ?case by simp
next
  case (Cons x xs)
  from gone_apply_op [OF Cons.prems, of x] Cons.IH [of "apply_op x s"]
  show ?case by simp
qed

lemma onDestroy_nth:
  "k < length (streams s) \<Longrightarrow>
   streams (onDestroy s) ! k = (if stopped s then streams s ! k else complete_share (store s) (streams s ! k))"
  using nth_apply_op [of k s OnDestroy] by simp

lemma complete_share_received:
  "i < length (observers d) \<Longrightarrow>
   received (observers (complete_share m d) ! i) = received (observers d ! i)"
  by (simp add: complete_share_def split: option.splits)

lemma wf_complete_share_gone:
  assumes "wf_derived False d" "i < length (observers d)"
  shows "\<not> active (observers (complete_share m d) ! i)"
proof (cases "connected d")
  case True
  then show ?thesis using assms(2) by (auto simp: complete_share_def dest!: connectedD)
next
  case False
  then have "\<not> active (observers d ! i)"
    using assms by (auto simp: wf_derived_def)
  then show ?thesis using assms(2) by (simp add: complete_share_gone)
qed

lemma wf_stopped_gone:
  "wf_derived True d \<Longrightarrow> i < length (observers d) \<Longrightarrow> \<not> active (observers d ! i)"
  by (auto simp: wf_derived_def)

lemma onDestroy_gone:
  assumes "wf_service s" "k < length (streams s)" "i < length (observers (streams s ! k))"
  shows "gone k i (onDestroy s) \<and> log k i (onDestroy s) = log k i s"
proof -
  have w: "wf_derived (stopped s) (streams s ! k)"
    using assms(1,2) by (simp add: wf_service_def)
  show ?thesis
  proof (cases "stopped s")
    case True
    then show ?thesis
      using assms w wf_stopped_gone [of "streams s ! k" i]
      by (simp add: gone_def log_def onDestroy_nth)
  next
    case False
    then show ?thesis
      using assms w wf_complete_share_gone [of "streams s ! k" i]
      by (simp add: gone_def log_def onDestroy_nth complete_share_received)
  qed
qed

lemma onDestroy_twice: "onDestroy (onDestroy s) = onDestroy s"
  by (simp add: onDestroy_def complete_updated_def Let_def)

subsection \<open>What a set hands to a connected observable\<close>

lemma emit_connected:
  "shared d = Some sh \<Longrightarrow> \<not> hasCompleted sh \<Longrightarrow>
   emit v d = d\<lparr>shared := Some (sh\<lparr>replay := trim (bufferSize d) (replay sh @ [v])\<rparr>),
               observers := map (deliver (comparator d) v) (observers d)\<rparr>"
  by (simp add: emit_def)

lemma write_connected:
  assumes "\<not> stopped s" "v \<noteq> JUndefined" "k < length (streams s)"
    "dname (streams s ! k) = name" "shared (streams s ! k) = Some sh" "\<not> hasCompleted sh"
  shows "streams (snd (stateValue name v s)) ! k =
           (streams s ! k)
             \<lparr>shared := Some (sh\<lparr>replay := trim (bufferSize (streams s ! k)) (replay sh @ [v])\<rparr>),
              observers := map (deliver (comparator (streams s ! k)) v) (observers (streams s ! k))\<rparr>"
  using assms
  by (simp add: stateValue_nth on_update_def check_now_def get_value_def emit_connected)

lemma write_delivers:
  assumes "\<not> stopped s" "v \<noteq> JUndefined" "k < length (streams s)"
    "dname (streams s ! k) = name" "connected (streams s ! k)"
    "i < length (observers (streams s ! k))"
  shows "observers (streams (snd (stateValue name v s)) ! k) ! i =
           deliver (comparator (streams s ! k)) v (observers (streams s ! k) ! i)"
proof -
  from assms(5) obtain sh where "shared (streams s ! k) = Some sh" "\<not> hasCompleted sh"
    by (auto dest: connectedD)
  from write_connected [OF assms(1-4) this] assms(6) show ?thesis by simp
qed

lemma take_same_length: "length xs = n \<Longrightarrow> take n (xs @ ys) = xs"
  by simp

subsection \<open>While a slot is absent and is not written\<close>

lemma store_quiet:
  "store s name = None \<Longrightarrow> \<not> writes name x \<Longrightarrow> store (apply_op x s) name = None"
  by (cases x) auto

lemma check_now_absent: "m (dname d) = None \<Longrightarrow> check_now m d = d"
  by (simp add: check_now_def)

lemma unsubscribe_derived_received:
  "i < length (observers d) \<Longrightarrow>
   received (observers (unsubscribe_derived j d) ! i) = received (observers d ! i)"
  by (cases "j = i") (auto simp: unsubscribe_derived_def Let_def split: option.splits)

lemma subscribe_derived_absent_received:
  assumes "i < length (observers d)" "m (dname d) = None"
  shows "received (observers (subscribe_derived m stp d) ! i) = received (observers d ! i)"
proof (cases "shared d")
  case None
  then show ?thesis
    using assms
    by (simp add: subscribe_derived_def Let_def check_now_absent complete_share_received nth_append)
next
  case (Some sh)
  then show ?thesis using assms by (simp add: subscribe_derived_def Let_def nth_append)
qed

lemma quiet_dtrans:
  assumes "store s name = None" "dname d = name" "\<not> writes name x" "i < length (observers d)"
  shows "received (observers (dtrans x s k d) ! i) = received (observers d ! i)"
  using assms
  by (cases x)
     (auto simp: on_update_def subscribe_derived_absent_received unsubscribe_derived_received
        complete_share_received)

lemma quiet_apply_op:
  assumes "listed name k i s" "\<not> writes name x"
  shows "listed name k i (apply_op x s) \<and> log k i (apply_op x s) = log k i s"
proof -
  from assms(1) have st: "store s name = None" and k: "k < length (streams s)"
    and n: "dname (streams s ! k) = name" and i: "i < length (observers (streams s ! k))"
    by (simp_all add: listed_def)
  have k': "k < length (streams (apply_op x s))"
    using k length_apply_op [of s x] by simp
  have i': "i < length (observers (dtrans x s k (streams s ! k)))"
    by (rule less_le_trans [OF i dtrans_fields(4)])
  show ?thesis
    using store_quiet [OF st assms(2)] k k' i' n quiet_dtrans [OF st n assms(2) i, of k]
    by (simp add: listed_def log_def nth_apply_op)
qed

lemma quiet_run:
  "listed name k i s \<Longrightarrow> list_all (\<lambda>x. \<not> writes name x) xs \<Longrightarrow>
   listed name k i (run xs s) \<and> log k i (run xs s) = log k i s"
proof (induction xs arbitrary: s)
  case Nil
  then show ?case by simp
next
  case (Cons x xs)
  from Cons.prems have x: "\<not> writes name x" and xs: "list_all (\<lambda>x. \<not> writes name x) xs"
    by simp_all
  from quiet_apply_op [OF Cons.prems(1) x] Cons.IH [of "apply_op x s", OF _ xs]
  show ?case by simp
qed

lemma silent_complete_share: "silent d \<Longrightarrow> silent (complete_share m d)"
  by (auto simp: silent_def complete_share_def split: option.splits)

lemma silent_subscribe_derived:
  assumes "silent d" "m (dname d) = None"
  shows "silent (subscribe_derived m stp d)"
proof (cases "shared d")
  case None
  let ?d1 = "d\<lparr>shared := Some \<lparr>replay = [], hasCompleted = False\<rparr>,
               observers := observers d @ [fresh_subscriber]\<rparr>"
  have "silent ?d1"
    using assms(1) by (auto simp: silent_def fresh_subscriber_def)
  then show ?thesis
    using None assms(2)
    by (simp add: subscribe_derived_def Let_def check_now_absent silent_complete_share)
next
  case (Some sh)
  then show ?thesis
    using assms(1)
    by (auto simp: silent_def subscribe_derived_def Let_def fresh_subscriber_def)
qed

lemma silent_unsubscribe_derived: "silent d \<Longrightarrow> silent (unsubscribe_derived i d)"
  by (auto simp: silent_def unsubscribe_derived_def Let_def
      dest!: set_update_subset_insert [THEN subsetD] split: option.splits if_splits)

lemma silent_dtrans:
  assumes "store s name = None" "dname d = name" "\<not> writes name x" "silent d"
  shows "silent (dtrans x s k d)"
  using assms
  by (cases x)
     (auto simp: on_update_def silent_subscribe_derived silent_unsubscribe_derived
        silent_complete_share)

lemma hushed_apply_op:
  assumes "hushed name k s" "\<not> writes name x"
  shows "hushed name k (apply_op x s)"
proof -
  from assms(1) have st: "store s name = None" and k: "k < length (streams s)"
    and n: "dname (streams s ! k) = name" and q: "silent (streams s ! k)"
    by (simp_all add: hushed_def)
  have k': "k < length (streams (apply_op x s))"
    using k length_apply_op [of s x] by simp
  show ?thesis
    using store_quiet [OF st assms(2)] k k' n silent_dtrans [OF st n assms(2) q, of k]
    by (simp add: hushed_def nth_apply_op)
qed

lemma hushed_run:
  "hushed name k s \<Longrightarrow> list_all (\<lambda>x. \<not> writes name x) xs \<Longrightarrow> hushed name k (run xs s)"
proof (induction xs arbitrary: s)
  case Nil
  then show ?case by simp
next
  case (Cons x xs)
  from Cons.prems have x: "\<not> writes name x" and xs: "list_all (\<lambda>x. \<not> writes name x) xs"
    by simp_all
  from Cons.IH [OF hushed_apply_op [OF Cons.prems(1) x] xs]
  show ?case by simp
qed

lemma stateValue_obs_Inr:
  assumes "fst (stateValue_obs name opts s) = Inr k"
  shows "k = length (streams s) \<and> k < length (streams (snd (stateValue_obs name opts s))) \<and>
         (\<exists>b. streams (snd (stateValue_obs name opts s)) ! k = new_derived name b)"
  using assms
  by (auto simp: stateValue_obs_result stateValue_obs_streams nth_append
      split: buffer_opt.splits if_splits)

lemma seed_undefined [simp]: "seed name JUndefined s = s"
  by (simp add: seed_def)

lemma hushed_new:
  assumes "store s name = None" "initial_of opts = JUndefined"
    "fst (stateValue_obs name opts s) = Inr k"
  shows "hushed name k (snd (stateValue_obs name opts s))"
proof -
  from stateValue_obs_Inr [OF assms(3)] obtain b
    where "k < length (streams (snd (stateValue_obs name opts s)))"
      "streams (snd (stateValue_obs name opts s)) ! k = new_derived name b"
    by blast
  then show ?thesis
    using assms(1,2) by (simp add: hushed_def silent_def new_derived_def)
qed

subsection \<open>A first set on an observable that has handed out nothing\<close>

lemma emit_unconnected: "\<not> connected d \<Longrightarrow> emit v d = d"
  by (simp add: emit_def connected_def split: option.splits)

lemma steady_apply_op:
  assumes "\<not> stopped s" "\<not> is_destroy x" "k < length (streams s)"
    "wf_derived False (streams s ! k)"
  shows "\<not> stopped (apply_op x s) \<and> wf_derived False (streams (apply_op x s) ! k)"
proof -
  have st: "\<not> stopped (apply_op x s)"
    using assms(1,2) by (simp add: stopped_apply_op)
  from wf_dtrans [of s "streams s ! k" x k] assms(1,4) st
  have "wf_derived False (dtrans x s k (streams s ! k))"
    by simp
  with st assms(3) show ?thesis
    by (simp add: nth_apply_op)
qed

lemma steady_run:
  "\<not> stopped s \<Longrightarrow> list_all (\<lambda>x. \<not> is_destroy x) xs \<Longrightarrow> k < length (streams s) \<Longrightarrow>
   wf_derived False (streams s ! k) \<Longrightarrow>
   \<not> stopped (run xs s) \<and> wf_derived False (streams (run xs s) ! k)"
proof (induction xs arbitrary: s)
  case Nil
  then show ?case by simp
next
  case (Cons x xs)
  from Cons.prems have x: "\<not> is_destroy x" and xs: "list_all (\<lambda>x. \<not> is_destroy x) xs"
    by simp_all
  from steady_apply_op [OF Cons.prems(1) x Cons.prems(3,4)]
  have a: "\<not> stopped (apply_op x s)" "wf_derived False (streams (apply_op x s) ! k)"
    by simp_all
  have k: "k < length (streams (apply_op x s))"
    using Cons.prems(3) length_apply_op [of s x] by simp
  from Cons.IH [OF a(1) xs k a(2)] show ?case by simp
qed

lemma comparator_run:
  "k < length (streams s) \<Longrightarrow> comparator (streams (run xs s) ! k) = comparator (streams s ! k)"
proof (induction xs arbitrary: s)
  case Nil
  then show ?case by simp
next
  case (Cons x xs)
  have k: "k < length (streams (apply_op x s))"
    using Cons.prems length_apply_op [of s x] by simp
  from Cons.IH [OF k] Cons.prems show ?case
    by (simp add: nth_apply_op)
qed

lemma first_set:
  assumes "\<not> stopped s" "v \<noteq> JUndefined" "k < length (streams s)"
    "dname (streams s ! k) = name" "silent (streams s ! k)"
    "wf_derived False (streams s ! k)" "comparator (streams s ! k) = None"
  shows "\<forall>u\<in>set (observers (streams (snd (stateValue name v s)) ! k)).
           received u = (if active u then [v] else [])"
proof (cases "connected (streams s ! k)")
  case True
  then obtain sh where "shared (streams s ! k) = Some sh" "\<not> hasCompleted sh"
    by (auto dest: connectedD)
  from write_connected [OF assms(1-4) this] assms(5,7) show ?thesis
    by (auto simp: silent_def deliver_def)
next
  case False
  then have same: "streams (snd (stateValue name v s)) ! k = streams s ! k"
    using assms(3) by (simp add: stateValue_nth on_update_def check_now_def emit_unconnected)
  from False assms(6) have "\<forall>u\<in>set (observers (streams s ! k)). \<not> active u"
    by (auto simp: wf_derived_def)
  with assms(5) show ?thesis
    unfolding same by (simp add: silent_def)
qed

subsection \<open>Subscribing after a set\<close>

lemma deliver_fresh: "received (deliver c v fresh_subscriber) = [v]"
  by (simp add: deliver_def fresh_subscriber_def split: option.splits)

lemma trim_one: "n \<le> 1 \<Longrightarrow> trim n (xs @ [v]) = [v]"
  by (simp add: trim_def max_def)

lemma subscribe_nth:
  "k < length (streams s) \<Longrightarrow>
   streams (subscribe k s) ! k = subscribe_derived (store s) (stopped s) (streams s ! k)"
  by (simp add: subscribe_def)

lemma subscribe_derived_now:
  assumes "shared d = None" "m (dname d) = Some v"
  shows "received (observers (subscribe_derived m stp d) ! length (observers d)) = [v]"
proof -
  let ?d1 = "d\<lparr>shared := Some \<lparr>replay = [], hasCompleted = False\<rparr>,
               observers := observers d @ [fresh_subscriber]\<rparr>"
  have "observers (check_now m ?d1) = map (deliver (comparator d) v) (observers d @ [fresh_subscriber])"
    using assms(2) by (simp add: check_now_def get_value_def emit_def)
  then have a: "received (observers (check_now m ?d1) ! length (observers d)) = [v]"
    by (simp add: nth_append deliver_fresh)
  have "received (observers (complete_share m (check_now m ?d1)) ! length (observers d)) = [v]"
    using a by (simp add: complete_share_received)
  with a show ?thesis
    using assms(1) by (simp add: subscribe_derived_def Let_def)
qed

lemma subscribe_derived_replay:
  assumes "shared d = Some sh" "replay sh = [v]"
  shows "received (observers (subscribe_derived m stp d) ! length (observers d)) = [v]"
  using assms by (simp add: subscribe_derived_def Let_def deliver_fresh)

lemma subscribe_after_set:
  assumes "\<not> stopped s" "v \<noteq> JUndefined" "k < length (streams s)"
    "dname (streams s ! k) = name" "bufferSize (streams s ! k) \<le> 1"
    "wf_derived False (streams s ! k)"
  shows "log k (length (observers (streams s ! k))) (subscribe k (snd (stateValue name v s))) = [v]"
proof (cases "shared (streams s ! k)")
  case None
  let ?s' = "snd (stateValue name v s)"
  have same: "streams ?s' ! k = streams s ! k"
    using assms(3) None
    by (simp add: stateValue_nth on_update_def check_now_def emit_def)
  have "store ?s' (dname (streams ?s' ! k)) = Some v"
    using assms(2,4) by (simp add: same)
  from subscribe_derived_now [of "streams ?s' ! k" "store ?s'" v "stopped ?s'", OF _ this]
  show ?thesis
    using assms(3) None by (simp add: log_def subscribe_nth same)
next
  case (Some sh)
  let ?s' = "snd (stateValue name v s)"
  from Some assms(6) have live: "\<not> hasCompleted sh"
    by (auto simp: wf_derived_def)
  from write_connected [OF assms(1-4) Some live] assms(5)
  have sh: "shared (streams ?s' ! k) = Some (sh\<lparr>replay := [v]\<rparr>)"
    and len: "length (observers (streams ?s' ! k)) = length (observers (streams s ! k))"
    by (simp_all add: trim_one)
  from subscribe_derived_replay [OF sh, of v "store ?s'" "stopped ?s'"] len
  show ?thesis
    using assms(3) by (simp add: log_def subscribe_nth)
qed

lemma subscribe_fresh:
  assumes "store s name = Some v"
  shows "fst (stateValue_obs name (None :: state_opts option) s) = Inr (length (streams s)) \<and>
         log (length (streams s)) 0
           (subscribe (length (streams s)) (snd (stateValue_obs name (None :: state_opts option) s))) = [v]"
proof -
  let ?s' = "snd (stateValue_obs name (None :: state_opts option) s)"
  have r: "fst (stateValue_obs name (None :: state_opts option) s) = Inr (length (streams s))"
    by (simp add: stateValue_obs_result buffer_of_def)
  have new: "streams ?s' ! length (streams s) = new_derived name 1"
    "length (streams s) < length (streams ?s')" "store ?s' = store s"
    by (simp_all add: stateValue_obs_streams buffer_of_def initial_of_def)
  from subscribe_derived_now [of "new_derived name 1" "store s" v "stopped ?s'"] assms
  have "received (observers (subscribe_derived (store s) (stopped ?s') (new_derived name 1)) ! 0) = [v]"
    by (simp add: new_derived_def)
  with r new show ?thesis
    by (simp add: log_def subscribe_nth)
qed

subsection \<open>Sets seen through \<^verbatim>\<open>distinctUntilChanged\<close>\<close>

lemma deliver_distinct:
  "active u \<Longrightarrow> prev_ok u \<Longrightarrow>
   received (deliver (Some f) v u) =
     (if received u \<noteq> [] \<and> f (last (received u)) v then received u else received u @ [v])"
  by (auto simp: deliver_def prev_ok_def split: option.splits if_splits)

lemma object_is_same [simp]: "object_is a a"
  by (simp add: object_is_def split: option.splits)

lemma object_is_objects [simp]: "object_is (JObj r fs) (JObj r' fs') = (r = r')"
  by (simp add: object_is_def)


subsection \<open>A newcomer and the first set\<close>

lemma emit_active:
  "i < length (observers d) \<Longrightarrow> active (observers (emit v d) ! i) = active (observers d ! i)"
  by (simp add: emit_def split: option.splits)

lemma check_now_active:
  "i < length (observers d) \<Longrightarrow>
   active (observers (check_now m d) ! i) = active (observers d ! i)"
  by (simp add: check_now_def emit_active)

lemma stateValue_active:
  "k < length (streams s) \<Longrightarrow> i < length (observers (streams s ! k)) \<Longrightarrow>
   active (observers (streams (snd (stateValue n v s)) ! k) ! i) =
     active (observers (streams s ! k) ! i)"
  by (simp add: stateValue_nth on_update_def check_now_active)

lemma subscribe_derived_active:
  assumes "wf_derived False d"
  shows "active (observers (subscribe_derived m False d) ! length (observers d))"
proof (cases "shared d")
  case None
  then show ?thesis
    by (simp add: subscribe_derived_def Let_def check_now_active nth_append)
next
  case (Some sh)
  with assms have "\<not> hasCompleted sh"
    by (auto simp: wf_derived_def)
  with Some show ?thesis
    by (simp add: subscribe_derived_def Let_def)
qed

lemma newcomer_first_set:
  assumes "\<not> stopped t" "v \<noteq> JUndefined" "hushed name k t"
    "wf_derived False (streams t ! k)" "comparator (streams t ! k) = None"
  shows "log k (length (observers (streams t ! k))) (subscribe k t) = [] \<and>
         log k (length (observers (streams t ! k))) (snd (stateValue name v (subscribe k t))) = [v]"
proof -
  let ?n = "length (observers (streams t ! k))"
  let ?t' = "subscribe k t"
  have nw: "\<not> writes name (Subscribe k)" and nd: "\<not> is_destroy (Subscribe k)"
    by simp_all
  from assms(3) have k: "k < length (streams t)"
    by (simp add: hushed_def)
  from hushed_apply_op [OF assms(3) nw] have h: "hushed name k ?t'"
    by simp
  from steady_apply_op [OF assms(1) nd k assms(4)]
  have live: "\<not> stopped ?t'" and w: "wf_derived False (streams ?t' ! k)"
    by simp_all
  have d: "streams ?t' ! k = subscribe_derived (store t) False (streams t ! k)"
    using k assms(1) by (simp add: subscribe_nth)
  have n: "?n < length (observers (streams ?t' ! k))"
    by (simp add: d)
  have a: "active (observers (streams ?t' ! k) ! ?n)"
    unfolding d by (rule subscribe_derived_active [OF assms(4)])
  have c: "comparator (streams ?t' ! k) = None"
    using assms(5) by (simp add: d)
  from h have q: "k < length (streams ?t')" "dname (streams ?t' ! k) = name"
    "silent (streams ?t' ! k)"
    by (simp_all add: hushed_def)
  from q(3) n have e: "log k ?n ?t' = []"
    by (simp add: silent_def log_def)
  let ?t'' = "snd (stateValue name v ?t')"
  have n': "?n < length (observers (streams ?t'' ! k))"
    using n q(1) by (simp add: stateValue_nth)
  have a': "active (observers (streams ?t'' ! k) ! ?n)"
    using a stateValue_active [OF q(1) n] by simp
  from first_set [OF live assms(2) q w c] n' a' have "log k ?n ?t'' = [v]"
    by (auto simp: log_def)
  with e show ?thesis
    by simp
qed

subsection \<open>The teardown as the subscribers see it\<close>

lemma destroy_constructed: "svc (destroy (calls pre constructor)) = onDestroy (run pre new_service)"
  by (simp add: destroy_def calls_def constructor_def)

lemma destroy_again: "destroy (calls xs (destroy w)) = calls xs (destroy w)"
  by (simp add: destroy_def calls_def)

lemma complete_share_found:
  assumes "connected d" "i < length (observers d)" "active (observers d ! i)"
  shows "found (observers (complete_share m d) ! i) = Some m \<and>
         completed (observers (complete_share m d) ! i)"
  using assms by (auto simp: complete_share_def finish_def dest!: connectedD)

lemma onDestroy_found:
  assumes "wf_service s" "k < length (streams s)" "i < length (observers (streams s ! k))"
    "active (observers (streams s ! k) ! i)"
  shows "found (observers (streams (onDestroy s) ! k) ! i) = Some (store s) \<and>
         completed (observers (streams (onDestroy s) ! k) ! i)"
proof -
  have w: "wf_derived (stopped s) (streams s ! k)"
    using assms(1,2) by (simp add: wf_service_def)
  have "observers (streams s ! k) ! i \<in> set (observers (streams s ! k))"
    using assms(3) by simp
  with w assms(4) have c: "connected (streams s ! k)"
    by (auto simp: wf_derived_def)
  with w have "\<not> stopped s"
    by (auto simp: wf_derived_def)
  then show ?thesis
    using assms(2) complete_share_found [OF c assms(3,4)] by (simp add: onDestroy_nth)
qed

section \<open>The claims\<close>

text \<open>
  C1. In a service that has not been torn down and holds no value for the name, take an
  observable from \<^verbatim>\<open>stateValue$\<close> with no \<^verbatim>\<open>initialValue\<close>. Whatever is called
  next, short of a write of the name (a set, or the set a seeding makes) or the
  teardown, none of its subscribers is given anything; the first set of the name then
  gives every subscriber that is still subscribed exactly the value set, once. So it is
  for a subscriber that subscribes at the end of those calls: nothing on subscribing,
  then exactly the value set.
\<close>

theorem stream_silent_until_first_set:
  assumes "\<not> hasStateValue name s" and "\<not> stopped s"
    and "initial_of opts = JUndefined"
    and "fst (stateValue_obs name opts s) = Inr k"
    and "list_all (\<lambda>x. \<not> writes name x \<and> \<not> is_destroy x) xs"
    and "v \<noteq> JUndefined"
    and "t = run xs (snd (stateValue_obs name opts s))"
  shows "(\<forall>u\<in>set (observers (streams t ! k)). received u = []) \<and>
         (\<forall>u\<in>set (observers (streams (snd (stateValue name v t)) ! k)).
            received u = (if active u then [v] else [])) \<and>
         log k (length (observers (streams t ! k))) (subscribe k t) = [] \<and>
         log k (length (observers (streams t ! k))) (snd (stateValue name v (subscribe k t))) = [v]"
proof -
  let ?s1 = "snd (stateValue_obs name opts s)"
  have xs1: "list_all (\<lambda>x. \<not> writes name x) xs" and xs2: "list_all (\<lambda>x. \<not> is_destroy x) xs"
    using assms(5) by (simp_all add: list_all_iff)
  have st: "store s name = None"
    using assms(1) by (simp add: hasStateValue_def)
  from stateValue_obs_Inr [OF assms(4)] obtain b
    where k: "k < length (streams ?s1)" and new: "streams ?s1 ! k = new_derived name b"
    by blast
  have h: "hushed name k t"
    unfolding assms(7) by (rule hushed_run [OF hushed_new [OF st assms(3,4)] xs1])
  have w: "wf_derived False (streams ?s1 ! k)"
    unfolding new by (rule wf_new_derived)
  have live: "\<not> stopped t" "wf_derived False (streams t ! k)"
    unfolding assms(7) using steady_run [OF _ xs2 k w] assms(2) by simp_all
  have c: "comparator (streams t ! k) = None"
    unfolding assms(7) using comparator_run [OF k, of xs] new by (simp add: new_derived_def)
  from h have q: "k < length (streams t)" "dname (streams t ! k) = name"
    "silent (streams t ! k)"
    by (simp_all add: hushed_def)
  from q(3) have a: "\<forall>u\<in>set (observers (streams t ! k)). received u = []"
    by (simp add: silent_def)
  note b = first_set [OF live(1) assms(6) q live(2) c]
  note n = newcomer_first_set [OF live(1) assms(6) h live(2) c]
  from a b n show ?thesis
    by blast
qed

theorem stream_silent_until_first_set_witness:
  "\<not> hasStateValue ''a'' new_service \<and> \<not> stopped new_service \<and>
   initial_of (None :: state_opts option) = JUndefined \<and>
   fst (stateValue_obs ''a'' (None :: state_opts option) new_service) = Inr 0 \<and>
   list_all (\<lambda>x. \<not> writes ''a'' x \<and> \<not> is_destroy x)
     [Subscribe 0, StateValue ''b'' (JNum 9), Subscribe 0, Unsubscribe 0 1,
      RemoveStateValue ''a''] \<and>
   map received (observers (streams
     (run [Subscribe 0, StateValue ''b'' (JNum 9), Subscribe 0, Unsubscribe 0 1,
           RemoveStateValue ''a'']
        (snd (stateValue_obs ''a'' (None :: state_opts option) new_service))) ! 0)) = [[], []] \<and>
   map received (observers (streams
     (snd (stateValue ''a'' (JNum 1)
        (run [Subscribe 0, StateValue ''b'' (JNum 9), Subscribe 0, Unsubscribe 0 1,
              RemoveStateValue ''a'']
           (snd (stateValue_obs ''a'' (None :: state_opts option) new_service))))) ! 0))
     = [[JNum 1], []] \<and>
   log 0 2 (snd (stateValue ''a'' (JNum 1) (subscribe 0
     (run [Subscribe 0, StateValue ''b'' (JNum 9), Subscribe 0, Unsubscribe 0 1,
           RemoveStateValue ''a'']
        (snd (stateValue_obs ''a'' (None :: state_opts option) new_service)))))) = [JNum 1]"
proof -
  let ?xs = "[Subscribe 0, StateValue ''b'' (JNum 9), Subscribe 0, Unsubscribe 0 1,
              RemoveStateValue ''a'']"
  have h1: "\<not> hasStateValue ''a'' new_service" and h2: "\<not> stopped new_service"
    by (simp_all add: hasStateValue_def new_service_def)
  have h3: "initial_of (None :: state_opts option) = JUndefined"
    by (simp add: initial_of_def)
  have h4: "fst (stateValue_obs ''a'' (None :: state_opts option) new_service) = Inr 0"
    by (simp add: service_defs)
  have h5: "list_all (\<lambda>x. \<not> writes ''a'' x \<and> \<not> is_destroy x) ?xs"
    by simp
  have h6: "JNum 1 \<noteq> JUndefined"
    by simp
  from stream_silent_until_first_set [OF h1 h2 h3 h4 h5 h6 refl] h1 h2 h3 h4 h5
  show ?thesis
    by (simp add: service_defs)
qed

text \<open>
  C2. In a service that has not been torn down, after \<^verbatim>\<open>stateValue(name, v1)\<close> and
  then \<^verbatim>\<open>stateValue(name, v2)\<close>, a subscriber that subscribes next to an observable
  for the name with the default buffer of 1 is given exactly \<open>v2\<close> at once: whether the
  observable was handed out before the two sets (connected or not) or is taken from
  \<^verbatim>\<open>stateValue$\<close> after them.
\<close>

theorem late_subscriber_gets_last_value:
  assumes "\<not> stopped (run xs new_service)" and "v2 \<noteq> JUndefined"
    and "s2 = snd (stateValue name v2 (snd (stateValue name v1 (run xs new_service))))"
  shows "(k < length (streams s2) \<and> dname (streams s2 ! k) = name \<and>
          bufferSize (streams s2 ! k) = 1 \<longrightarrow>
            log k (length (observers (streams s2 ! k))) (subscribe k s2) = [v2]) \<and>
         fst (stateValue_obs name (None :: state_opts option) s2) = Inr (length (streams s2)) \<and>
         log (length (streams s2)) 0
           (subscribe (length (streams s2)) (snd (stateValue_obs name (None :: state_opts option) s2))) = [v2]"
proof -
  let ?s1 = "snd (stateValue name v1 (run xs new_service))"
  have run1: "?s1 = run (xs @ [StateValue name v1]) new_service"
    by simp
  have wf1: "wf_service ?s1"
    unfolding run1 by (rule wf_reachable)
  have live: "\<not> stopped ?s1"
    using assms(1) by simp
  have a: "log k (length (observers (streams s2 ! k))) (subscribe k s2) = [v2]"
    if h: "k < length (streams s2) \<and> dname (streams s2 ! k) = name \<and>
          bufferSize (streams s2 ! k) = 1"
  proof -
    from h have k: "k < length (streams ?s1)"
      by (simp add: assms(3))
    have d: "streams s2 ! k = dtrans (StateValue name v2) ?s1 k (streams ?s1 ! k)"
      unfolding assms(3) by (rule stateValue_nth [OF k])
    from h have n: "dname (streams ?s1 ! k) = name" and b: "bufferSize (streams ?s1 ! k) \<le> 1"
      and len: "length (observers (streams s2 ! k)) = length (observers (streams ?s1 ! k))"
      unfolding d using live assms(2) by simp_all
    have w: "wf_derived False (streams ?s1 ! k)"
      using wf1 k live by (simp add: wf_service_def)
    from subscribe_after_set [OF live assms(2) k n b w] len show ?thesis
      by (simp add: assms(3))
  qed
  have "store s2 name = Some v2"
    using assms(2,3) by simp
  from subscribe_fresh [OF this] a show ?thesis
    by blast
qed

theorem late_subscriber_gets_last_value_witness:
  "\<not> stopped (run [StateValueObs ''a'' None, Subscribe 0, StateValueObs ''a'' None] new_service) \<and>
   dname (streams
     (run [StateValueObs ''a'' None, Subscribe 0, StateValueObs ''a'' None,
           StateValue ''a'' (JNum 1), StateValue ''a'' (JNum 2)] new_service) ! 0) = ''a'' \<and>
   bufferSize (streams
     (run [StateValueObs ''a'' None, Subscribe 0, StateValueObs ''a'' None,
           StateValue ''a'' (JNum 1), StateValue ''a'' (JNum 2)] new_service) ! 0) = 1 \<and>
   log 0 1 (subscribe 0
     (run [StateValueObs ''a'' None, Subscribe 0, StateValueObs ''a'' None,
           StateValue ''a'' (JNum 1), StateValue ''a'' (JNum 2)] new_service)) = [JNum 2] \<and>
   log 1 0 (subscribe 1
     (run [StateValueObs ''a'' None, Subscribe 0, StateValueObs ''a'' None,
           StateValue ''a'' (JNum 1), StateValue ''a'' (JNum 2)] new_service)) = [JNum 2] \<and>
   log 2 0 (subscribe 2 (snd (stateValue_obs ''a'' (None :: state_opts option)
     (run [StateValueObs ''a'' None, Subscribe 0, StateValueObs ''a'' None,
           StateValue ''a'' (JNum 1), StateValue ''a'' (JNum 2)] new_service)))) = [JNum 2]"
proof -
  let ?xs = "[StateValueObs ''a'' None, Subscribe 0, StateValueObs ''a'' None]"
  let ?s2 = "run [StateValueObs ''a'' None, Subscribe 0, StateValueObs ''a'' None,
           StateValue ''a'' (JNum 1), StateValue ''a'' (JNum 2)] new_service"
  have h1: "\<not> stopped (run ?xs new_service)"
    by (simp add: stopped_apply_op new_service_def)
  have h2: "JNum 2 \<noteq> JUndefined"
    by simp
  have h3: "?s2 = snd (stateValue ''a'' (JNum 2) (snd (stateValue ''a'' (JNum 1)
      (run ?xs new_service))))"
    by simp
  from late_subscriber_gets_last_value [OF h1 h2 h3, of 0]
    late_subscriber_gets_last_value [OF h1 h2 h3, of 1]
  show ?thesis
    by (simp add: service_defs)
qed

text \<open>
  C3, as the code has it. The teardown is the one callback the constructor registers:
  destroying the owner runs it, once, and a second destroying runs nothing. It completes
  \<^verbatim>\<open>#stateValueUpdated$\<close>, for good, and then clears the store: a subscriber that
  is subscribed when it runs is completed while the store still holds what it held, and
  right after the teardown no name has a value. Every subscriber that subscribed before
  the teardown is given nothing by it, has left, and is given nothing more, whatever is
  called later.
\<close>

theorem teardown_closes_then_clears:
  "svc (destroy (calls pre constructor)) = onDestroy (run pre new_service) \<and>
   destroy (calls xs (destroy (calls pre constructor))) = calls xs (destroy (calls pre constructor)) \<and>
   stopped (run xs (onDestroy s)) \<and>
   \<not> hasStateValue name (onDestroy s) \<and>
   (k < length (streams (run pre new_service)) \<and>
    i < length (observers (streams (run pre new_service) ! k)) \<longrightarrow>
      (active (observers (streams (run pre new_service) ! k) ! i) \<longrightarrow>
         completed (observers (streams (onDestroy (run pre new_service)) ! k) ! i) \<and>
         found (observers (streams (onDestroy (run pre new_service)) ! k) ! i) =
           Some (store (run pre new_service))) \<and>
      log k i (onDestroy (run pre new_service)) = log k i (run pre new_service) \<and>
      log k i (run xs (onDestroy (run pre new_service))) = log k i (run pre new_service) \<and>
      \<not> active (observers (streams (run xs (onDestroy (run pre new_service))) ! k) ! i))"
proof -
  let ?s = "run pre new_service"
  have a: "svc (destroy (calls pre constructor)) = onDestroy ?s"
    by (rule destroy_constructed)
  have a': "destroy (calls xs (destroy (calls pre constructor))) =
            calls xs (destroy (calls pre constructor))"
    by (rule destroy_again)
  have b: "stopped (run xs (onDestroy s))" "\<not> hasStateValue name (onDestroy s)"
    by (simp_all add: stopped_run hasStateValue_def)
  have c: "(active (observers (streams ?s ! k) ! i) \<longrightarrow>
         completed (observers (streams (onDestroy ?s) ! k) ! i) \<and>
         found (observers (streams (onDestroy ?s) ! k) ! i) = Some (store ?s)) \<and>
      log k i (onDestroy ?s) = log k i ?s \<and>
      log k i (run xs (onDestroy ?s)) = log k i ?s \<and>
      \<not> active (observers (streams (run xs (onDestroy ?s)) ! k) ! i)"
    if h: "k < length (streams ?s) \<and> i < length (observers (streams ?s ! k))"
  proof -
    from h have k: "k < length (streams ?s)" and i: "i < length (observers (streams ?s ! k))"
      by simp_all
    from onDestroy_gone [OF wf_reachable k i]
    have g: "gone k i (onDestroy ?s)" and l: "log k i (onDestroy ?s) = log k i ?s"
      by simp_all
    from gone_run [OF g, of xs]
    have g': "gone k i (run xs (onDestroy ?s))"
      and e: "observers (streams (run xs (onDestroy ?s)) ! k) ! i =
              observers (streams (onDestroy ?s) ! k) ! i"
      by simp_all
    have "log k i (run xs (onDestroy ?s)) = log k i (onDestroy ?s)"
      unfolding log_def by (simp only: e)
    with l g' onDestroy_found [OF wf_reachable k i] show ?thesis
      by (simp add: gone_def)
  qed
  from a a' b c show ?thesis
    by blast
qed

theorem teardown_closes_then_clears_witness:
  "0 < length (streams
     (run [StateValueObs ''a'' None, StateValue ''a'' (JNum 1), Subscribe 0] new_service)) \<and>
   0 < length (observers (streams
     (run [StateValueObs ''a'' None, StateValue ''a'' (JNum 1), Subscribe 0] new_service) ! 0)) \<and>
   active (observers (streams
     (run [StateValueObs ''a'' None, StateValue ''a'' (JNum 1), Subscribe 0] new_service) ! 0) ! 0) \<and>
   found (observers (streams
     (onDestroy (run [StateValueObs ''a'' None, StateValue ''a'' (JNum 1), Subscribe 0]
        new_service)) ! 0) ! 0) = Some [''a'' \<mapsto> JNum 1] \<and>
   \<not> hasStateValue ''a''
     (onDestroy (run [StateValueObs ''a'' None, StateValue ''a'' (JNum 1), Subscribe 0]
        new_service)) \<and>
   log 0 0 (run [StateValue ''a'' (JNum 2), Subscribe 0, StateValue ''a'' (JNum 3)]
     (onDestroy (run [StateValueObs ''a'' None, StateValue ''a'' (JNum 1), Subscribe 0]
        new_service))) = [JNum 1] \<and>
   \<not> active (observers (streams
     (run [StateValue ''a'' (JNum 2), Subscribe 0, StateValue ''a'' (JNum 3)]
        (onDestroy (run [StateValueObs ''a'' None, StateValue ''a'' (JNum 1), Subscribe 0]
           new_service))) ! 0) ! 0)"
  using teardown_closes_then_clears
    [of "[StateValueObs ''a'' None, StateValue ''a'' (JNum 1), Subscribe 0]"
        "[StateValue ''a'' (JNum 2), Subscribe 0, StateValue ''a'' (JNum 3)]"
        "run [StateValueObs ''a'' None, StateValue ''a'' (JNum 1), Subscribe 0] new_service"
        "''a''" 0 0]
  by (simp add: service_defs)

text \<open>
  Against C3 as stated: an observable is connected and has handed out a value; after
  the teardown a new subscriber of it is still given that value, from the replay
  buffer, although no name has a value any more.
\<close>

theorem late_subscriber_after_teardown_counterexample:
  "length (observers (streams
     (run [StateValueObs ''a'' None, StateValue ''a'' (JNum 1), Subscribe 0, OnDestroy]
        new_service) ! 0)) = 1 \<and>
   \<not> hasStateValue ''a''
     (run [StateValueObs ''a'' None, StateValue ''a'' (JNum 1), Subscribe 0, OnDestroy]
        new_service) \<and>
   log 0 1
     (run [StateValueObs ''a'' None, StateValue ''a'' (JNum 1), Subscribe 0, OnDestroy,
           Subscribe 0] new_service) = [JNum 1]"
  by (simp add: service_defs)

text \<open>
  C4. With \<^verbatim>\<open>buffer: 0\<close> the last operator given to \<^verbatim>\<open>pipe\<close> is \<^verbatim>\<open>undefined\<close>:
  \<^verbatim>\<open>stateValue$\<close> and \<^verbatim>\<open>stateValueDistinct$\<close> raise a \<^verbatim>\<open>TypeError\<close> and hand out
  no observable.
\<close>

theorem buffer_zero_raises:
  "fst (stateValue_obs name (Some (opt\<lparr>buffer := Buffer 0\<rparr>)) s) = Inl TypeError \<and>
   fst (stateValueDistinct_obs name (Some (dopt\<lparr>buffer := Buffer 0\<rparr>)) s) = Inl TypeError \<and>
   length (streams (snd (stateValue_obs name (Some (opt\<lparr>buffer := Buffer 0\<rparr>)) s)))
     = length (streams s)"
  by (simp add: stateValue_obs_result stateValueDistinct_obs_result stateValue_obs_streams
      buffer_of_def)

text \<open>
  C5, as the code has it. After the teardown a read reports what the store holds,
  nothing right after it, and changes nothing. A set is not refused: it stores the
  value, so that \<^verbatim>\<open>hasStateValue\<close> becomes true and the read form returns it; it
  notifies nobody: the observables, and what their subscribers have been given, are
  left as they were. A subscriber that subscribes afterwards to an observable newly
  taken from \<^verbatim>\<open>stateValue$\<close> is given the stored value.
\<close>

theorem set_after_teardown_is_stored:
  assumes "t = run xs (onDestroy s)"
  shows "\<not> hasStateValue name (onDestroy s) \<and>
   fst (stateValue name JUndefined (onDestroy s)) = JUndefined \<and>
   stopped t \<and>
   stateValue name JUndefined t = (get_value (store t) name, t) \<and>
   (v \<noteq> JUndefined \<longrightarrow>
      stateValue name v t = (JUndefined, t\<lparr>store := (store t)(name \<mapsto> v)\<rparr>) \<and>
      hasStateValue name (snd (stateValue name v t)) \<and>
      fst (stateValue name JUndefined (snd (stateValue name v t))) = v \<and>
      streams (snd (stateValue name v t)) = streams t \<and>
      log k i (snd (stateValue name v t)) = log k i t \<and>
      log (length (streams t)) 0
        (subscribe (length (streams t))
           (snd (stateValue_obs name (None :: state_opts option) (snd (stateValue name v t)))))
        = [v])"
proof -
  have st: "stopped t"
    unfolding assms by (simp add: stopped_run)
  have w: "stateValue name v t = (JUndefined, t\<lparr>store := (store t)(name \<mapsto> v)\<rparr>)"
    if "v \<noteq> JUndefined"
    using that st by (simp add: stateValue_def next_updated_stopped)
  have f: "log (length (streams t)) 0
        (subscribe (length (streams t))
           (snd (stateValue_obs name (None :: state_opts option) (snd (stateValue name v t)))))
        = [v]" if "v \<noteq> JUndefined"
  proof -
    have "store (snd (stateValue name v t)) name = Some v"
      using that by simp
    from subscribe_fresh [OF this] show ?thesis
      by simp
  qed
  show ?thesis
    using st w f
    by (auto simp: hasStateValue_def stateValue_def get_value_def log_def)
qed

theorem set_after_teardown_is_stored_witness:
  "JNum 1 \<noteq> JUndefined \<and>
   stateValue ''a'' (JNum 1)
     (run [Subscribe 0] (onDestroy (run [StateValueObs ''a'' None, Subscribe 0] new_service)))
     = (JUndefined,
        (run [Subscribe 0] (onDestroy (run [StateValueObs ''a'' None, Subscribe 0] new_service)))
          \<lparr>store := [''a'' \<mapsto> JNum 1]\<rparr>) \<and>
   hasStateValue ''a'' (snd (stateValue ''a'' (JNum 1)
     (run [Subscribe 0] (onDestroy (run [StateValueObs ''a'' None, Subscribe 0] new_service))))) \<and>
   log 0 0 (snd (stateValue ''a'' (JNum 1)
     (run [Subscribe 0] (onDestroy (run [StateValueObs ''a'' None, Subscribe 0] new_service)))))
     = [] \<and>
   log 1 0 (subscribe 1 (snd (stateValue_obs ''a'' (None :: state_opts option)
     (snd (stateValue ''a'' (JNum 1)
        (run [Subscribe 0]
           (onDestroy (run [StateValueObs ''a'' None, Subscribe 0] new_service)))))))) = [JNum 1]"
  using set_after_teardown_is_stored
    [OF refl, of "''a''" "run [StateValueObs ''a'' None, Subscribe 0] new_service" "[Subscribe 0]"
       "JNum 1" 0 0]
  by (simp add: service_defs)

text \<open>
  Against C5 as stated: a set after the teardown leaves a value in the store.
\<close>

theorem set_after_teardown_counterexample:
  "\<not> hasStateValue ''a'' (run [StateValue ''a'' (JNum 0), OnDestroy] new_service) \<and>
   hasStateValue ''a''
     (run [StateValue ''a'' (JNum 0), OnDestroy, StateValue ''a'' (JNum 1)] new_service) \<and>
   fst (stateValue ''a'' JUndefined
     (run [StateValue ''a'' (JNum 0), OnDestroy, StateValue ''a'' (JNum 1)] new_service)) = JNum 1"
  by (simp add: service_defs)

text \<open>
  C6, as the code has it. The seeding of \<^verbatim>\<open>stateValue$\<close> is a call of
  \<^verbatim>\<open>stateValue\<close>: when \<^verbatim>\<open>initialValue\<close> is given and the slot is absent, the
  observables handed out before and the store are left as \<^verbatim>\<open>stateValue(name,
  initialValue)\<close> leaves them; otherwise they are left as they were. So in every run
  of a service that has not been torn down, a seeding gives the value to each subscriber
  of a connected observable for the name: always when the observable is from
  \<^verbatim>\<open>stateValue$\<close>, and when it is from \<^verbatim>\<open>stateValueDistinct$\<close> unless its
  comparator holds between the last value the subscriber was given and the seeded one.
\<close>

theorem seeding_is_a_set:
  "take (length (streams s)) (streams (snd (stateValue_obs name opts s))) =
     streams (if initial_of opts \<noteq> JUndefined \<and> \<not> hasStateValue name s
              then snd (stateValue name (initial_of opts) s) else s) \<and>
   store (snd (stateValue_obs name opts s)) =
     store (if initial_of opts \<noteq> JUndefined \<and> \<not> hasStateValue name s
            then snd (stateValue name (initial_of opts) s) else s) \<and>
   (initial_of opts \<noteq> JUndefined \<and> \<not> hasStateValue name s \<and> \<not> stopped s \<and>
    s = run xs new_service \<and>
    k < length (streams s) \<and> dname (streams s ! k) = name \<and> connected (streams s ! k) \<and>
    i < length (observers (streams s ! k)) \<and> active (observers (streams s ! k) ! i) \<longrightarrow>
      log k i (snd (stateValue_obs name opts s)) =
        (case comparator (streams s ! k) of
           None \<Rightarrow> log k i s @ [initial_of opts]
         | Some f \<Rightarrow>
             if log k i s \<noteq> [] \<and> f (last (log k i s)) (initial_of opts) then log k i s
             else log k i s @ [initial_of opts]))"
proof -
  let ?s1 = "if initial_of opts \<noteq> JUndefined \<and> \<not> hasStateValue name s
             then snd (stateValue name (initial_of opts) s) else s"
  have seed: "seed name (initial_of opts) s = ?s1"
    by (simp add: seed_def)
  have len: "length (streams ?s1) = length (streams s)"
    by simp
  have a: "take (length (streams s)) (streams (snd (stateValue_obs name opts s))) = streams ?s1"
    unfolding stateValue_obs_streams seed by (rule take_same_length [OF len])
  have b: "store (snd (stateValue_obs name opts s)) = store ?s1"
    unfolding stateValue_obs_simps seed ..
  have c: "log k i (snd (stateValue_obs name opts s)) =
        (case comparator (streams s ! k) of
           None \<Rightarrow> log k i s @ [initial_of opts]
         | Some f \<Rightarrow>
             if log k i s \<noteq> [] \<and> f (last (log k i s)) (initial_of opts) then log k i s
             else log k i s @ [initial_of opts])"
    if h: "initial_of opts \<noteq> JUndefined" "\<not> hasStateValue name s" "\<not> stopped s"
      "s = run xs new_service"
      "k < length (streams s)" "dname (streams s ! k) = name" "connected (streams s ! k)"
      "i < length (observers (streams s ! k))" "active (observers (streams s ! k) ! i)"
  proof -
    have e: "streams (snd (stateValue_obs name opts s)) ! k =
          streams (snd (stateValue name (initial_of opts) s)) ! k"
      using h(1,2,5) by (simp add: stateValue_obs_streams seed nth_append)
    have w: "wf_derived False (streams s ! k)"
      using wf_reachable [of xs] h(3,4,5) by (simp add: wf_service_def)
    have u: "observers (streams s ! k) ! i \<in> set (observers (streams s ! k))"
      using h(8) by simp
    note d = write_delivers [OF h(3) h(1) h(5) h(6) h(7) h(8)]
    show ?thesis
    proof (cases "comparator (streams s ! k)")
      case None
      then show ?thesis
        using e d h(9) by (simp add: log_def deliver_plain)
    next
      case (Some f)
      with w u have "prev_ok (observers (streams s ! k) ! i)"
        by (auto simp: wf_derived_def)
      then show ?thesis
        using e d h(9) Some by (simp add: log_def deliver_distinct)
    qed
  qed
  show ?thesis
  proof (intro conjI impI)
    show "take (length (streams s)) (streams (snd (stateValue_obs name opts s))) = streams ?s1"
      by (rule a)
    show "store (snd (stateValue_obs name opts s)) = store ?s1"
      by (rule b)
  next
    assume "initial_of opts \<noteq> JUndefined \<and> \<not> hasStateValue name s \<and> \<not> stopped s \<and>
      s = run xs new_service \<and>
      k < length (streams s) \<and> dname (streams s ! k) = name \<and> connected (streams s ! k) \<and>
      i < length (observers (streams s ! k)) \<and> active (observers (streams s ! k) ! i)"
    then show "log k i (snd (stateValue_obs name opts s)) =
        (case comparator (streams s ! k) of
           None \<Rightarrow> log k i s @ [initial_of opts]
         | Some f \<Rightarrow>
             if log k i s \<noteq> [] \<and> f (last (log k i s)) (initial_of opts) then log k i s
             else log k i s @ [initial_of opts])"
      by (elim conjE) (rule c)
  qed
qed

theorem seeding_is_a_set_witness:
  "initial_of (Some \<lparr>buffer = NoBuffer, initialValue = JNum 5\<rparr>) \<noteq> JUndefined \<and>
   \<not> hasStateValue ''a''
     (run [StateValueObs ''a'' None, StateValueDistinctObs ''a'' None, Subscribe 0, Subscribe 1,
           StateValue ''a'' (JNum 5), RemoveStateValue ''a''] new_service) \<and>
   \<not> stopped
     (run [StateValueObs ''a'' None, StateValueDistinctObs ''a'' None, Subscribe 0, Subscribe 1,
           StateValue ''a'' (JNum 5), RemoveStateValue ''a''] new_service) \<and>
   connected (streams
     (run [StateValueObs ''a'' None, StateValueDistinctObs ''a'' None, Subscribe 0, Subscribe 1,
           StateValue ''a'' (JNum 5), RemoveStateValue ''a''] new_service) ! 0) \<and>
   connected (streams
     (run [StateValueObs ''a'' None, StateValueDistinctObs ''a'' None, Subscribe 0, Subscribe 1,
           StateValue ''a'' (JNum 5), RemoveStateValue ''a''] new_service) ! 1) \<and>
   active (observers (streams
     (run [StateValueObs ''a'' None, StateValueDistinctObs ''a'' None, Subscribe 0, Subscribe 1,
           StateValue ''a'' (JNum 5), RemoveStateValue ''a''] new_service) ! 0) ! 0) \<and>
   active (observers (streams
     (run [StateValueObs ''a'' None, StateValueDistinctObs ''a'' None, Subscribe 0, Subscribe 1,
           StateValue ''a'' (JNum 5), RemoveStateValue ''a''] new_service) ! 1) ! 0) \<and>
   log 0 0 (snd (stateValue_obs ''a'' (Some \<lparr>buffer = NoBuffer, initialValue = JNum 5\<rparr>)
     (run [StateValueObs ''a'' None, StateValueDistinctObs ''a'' None, Subscribe 0, Subscribe 1,
           StateValue ''a'' (JNum 5), RemoveStateValue ''a''] new_service)))
     = [JNum 5, JNum 5] \<and>
   log 1 0 (snd (stateValue_obs ''a'' (Some \<lparr>buffer = NoBuffer, initialValue = JNum 5\<rparr>)
     (run [StateValueObs ''a'' None, StateValueDistinctObs ''a'' None, Subscribe 0, Subscribe 1,
           StateValue ''a'' (JNum 5), RemoveStateValue ''a''] new_service)))
     = [JNum 5] \<and>
   store (snd (stateValue_obs ''a'' (Some \<lparr>buffer = NoBuffer, initialValue = JNum 5\<rparr>)
     (run [StateValueObs ''a'' None, StateValueDistinctObs ''a'' None, Subscribe 0, Subscribe 1,
           StateValue ''a'' (JNum 5), RemoveStateValue ''a''] new_service))) ''a''
     = Some (JNum 5)"
proof -
  let ?xs = "[StateValueObs ''a'' None, StateValueDistinctObs ''a'' None, Subscribe 0,
              Subscribe 1, StateValue ''a'' (JNum 5), RemoveStateValue ''a'']"
  let ?opts = "Some \<lparr>buffer = NoBuffer, initialValue = JNum 5\<rparr>"
  have c: "comparator (streams (run ?xs new_service) ! 0) = None"
    "comparator (streams (run ?xs new_service) ! 1) = Some object_is"
    by (simp_all add: service_defs)
  have l: "log 0 0 (run ?xs new_service) = [JNum 5]" "log 1 0 (run ?xs new_service) = [JNum 5]"
    by (simp_all add: service_defs)
  have h: "initial_of ?opts \<noteq> JUndefined" "initial_of ?opts = JNum 5"
    "\<not> hasStateValue ''a'' (run ?xs new_service)" "\<not> stopped (run ?xs new_service)"
    "0 < length (streams (run ?xs new_service))" "1 < length (streams (run ?xs new_service))"
    "dname (streams (run ?xs new_service) ! 0) = ''a''"
    "dname (streams (run ?xs new_service) ! 1) = ''a''"
    "connected (streams (run ?xs new_service) ! 0)"
    "connected (streams (run ?xs new_service) ! 1)"
    "0 < length (observers (streams (run ?xs new_service) ! 0))"
    "0 < length (observers (streams (run ?xs new_service) ! 1))"
    "active (observers (streams (run ?xs new_service) ! 0) ! 0)"
    "active (observers (streams (run ?xs new_service) ! 1) ! 0)"
    by (simp_all add: service_defs connected_def)
  have plain: "log 0 0 (snd (stateValue_obs ''a'' ?opts (run ?xs new_service))) = [JNum 5, JNum 5]"
    using seeding_is_a_set [of "run ?xs new_service" "''a''" ?opts ?xs 0 0, THEN conjunct2,
        THEN conjunct2] h
    unfolding c l by simp
  have distinct: "log 1 0 (snd (stateValue_obs ''a'' ?opts (run ?xs new_service))) = [JNum 5]"
    using seeding_is_a_set [of "run ?xs new_service" "''a''" ?opts ?xs 1 0, THEN conjunct2,
        THEN conjunct2] h
    unfolding c l by simp
  have st: "store (snd (stateValue_obs ''a'' ?opts (run ?xs new_service))) ''a'' = Some (JNum 5)"
    by (simp add: service_defs)
  from plain distinct st h show ?thesis
    by simp
qed

text \<open>
  Against C6 as stated: the subscriber of an observable handed out earlier is given the
  seeded value by the call of \<^verbatim>\<open>stateValue$\<close> that seeds.
\<close>

theorem seeding_emits_counterexample:
  "log 0 0 (run [StateValueObs ''a'' None, Subscribe 0] new_service) = [] \<and>
   log 0 0 (run [StateValueObs ''a'' None, Subscribe 0,
                 StateValueObs ''a'' (Some \<lparr>buffer = NoBuffer, initialValue = JNum 5\<rparr>)]
              new_service) = [JNum 5]"
  by (simp add: service_defs)

text \<open>
  C7. The store never maps a name to \<^verbatim>\<open>undefined\<close>: it does not in a new service,
  every operation keeps it so, hence every run does; and \<^verbatim>\<open>stateValue\<close> given
  \<^verbatim>\<open>undefined\<close> is a read that leaves the service as it was, as is a seeding with
  \<^verbatim>\<open>undefined\<close>.
\<close>

theorem store_never_holds_undefined:
  "store new_service name \<noteq> Some JUndefined \<and>
   (store s name \<noteq> Some JUndefined \<longrightarrow> store (apply_op x s) name \<noteq> Some JUndefined) \<and>
   store (run xs new_service) name \<noteq> Some JUndefined \<and>
   snd (stateValue name JUndefined s) = s \<and>
   seed name JUndefined s = s"
proof -
  have init: "store new_service name \<noteq> Some JUndefined"
    by (simp add: new_service_def)
  have "store (run xs new_service) name \<noteq> Some JUndefined"
    by (rule store_run_defined [OF init])
  then show ?thesis
    using init by (simp add: store_apply_op_defined stateValue_def seed_def)
qed

theorem store_never_holds_undefined_witness:
  "store (run [StateValue ''a'' (JNum 1)] new_service) ''a'' \<noteq> Some JUndefined \<and>
   store (apply_op (StateValue ''a'' JUndefined) (run [StateValue ''a'' (JNum 1)] new_service)) ''a''
     = Some (JNum 1) \<and>
   store (run [StateValueObs ''b'' (Some \<lparr>buffer = NoBuffer, initialValue = JUndefined\<rparr>),
               StateValue ''b'' JUndefined] new_service) ''b'' = None"
  using store_never_holds_undefined
    [of "''a''" "run [StateValue ''a'' (JNum 1)] new_service" "StateValue ''a'' JUndefined" "[]"]
  by (simp add: service_defs)



text \<open>
  C9, as the code has it. \<^verbatim>\<open>removeStateValue\<close> deletes the entry and touches nothing
  else: it does nothing when the entry is absent, it notifies nobody, and
  \<^verbatim>\<open>hasStateValue\<close> is false after it. Until a set or a seeding writes the name again,
  no subscriber that had subscribed to an observable for the name before the removal is
  given anything, and an observable made by \<^verbatim>\<open>stateValue$\<close> for the name after the
  removal, with no \<^verbatim>\<open>initialValue\<close>, hands nothing to any subscriber.
\<close>

theorem remove_is_silent:
  "store (removeStateValue name s) = (store s)(name := None) \<and>
   streams (removeStateValue name s) = streams s \<and>
   stopped (removeStateValue name s) = stopped s \<and>
   (\<not> hasStateValue name s \<longrightarrow> removeStateValue name s = s) \<and>
   \<not> hasStateValue name (removeStateValue name s) \<and>
   (list_all (\<lambda>x. \<not> writes name x) xs \<longrightarrow>
      (k < length (streams s) \<and> dname (streams s ! k) = name \<and>
       i < length (observers (streams s ! k)) \<longrightarrow>
         log k i (run xs (removeStateValue name s)) = log k i s) \<and>
      (initial_of opts = JUndefined \<and>
       fst (stateValue_obs name opts (run xs (removeStateValue name s))) = Inr j \<and>
       list_all (\<lambda>x. \<not> writes name x) ys \<longrightarrow>
         (\<forall>u\<in>set (observers (streams
              (run ys (snd (stateValue_obs name opts (run xs (removeStateValue name s))))) ! j)).
            received u = [])))"
proof -
  let ?r = "removeStateValue name s"
  have a: "\<not> hasStateValue name s \<longrightarrow> ?r = s"
    by (auto simp: hasStateValue_def removeStateValue_def fun_upd_idem)
  have b: "\<not> hasStateValue name ?r"
    by (simp add: hasStateValue_def)
  have c: "log k i (run xs ?r) = log k i s"
    if xs: "list_all (\<lambda>x. \<not> writes name x) xs"
      and h: "k < length (streams s) \<and> dname (streams s ! k) = name \<and>
       i < length (observers (streams s ! k))"
  proof -
    from h have "listed name k i ?r"
      by (simp add: listed_def)
    from quiet_run [OF this xs] show ?thesis
      by (simp add: log_def)
  qed
  have d: "\<forall>u\<in>set (observers (streams (run ys (snd (stateValue_obs name opts (run xs ?r)))) ! j)).
            received u = []"
    if xs: "list_all (\<lambda>x. \<not> writes name x) xs"
      and h: "initial_of opts = JUndefined \<and> fst (stateValue_obs name opts (run xs ?r)) = Inr j \<and>
       list_all (\<lambda>x. \<not> writes name x) ys"
  proof -
    have "store ?r name = None"
      by simp
    then have "store (run xs ?r) name = None"
      using xs by (induction xs arbitrary: s rule: rev_induct) (simp_all add: store_quiet)
    with h have "hushed name j (snd (stateValue_obs name opts (run xs ?r)))"
      by (simp add: hushed_new)
    with h have "hushed name j (run ys (snd (stateValue_obs name opts (run xs ?r))))"
      by (simp add: hushed_run)
    then show ?thesis
      by (simp add: hushed_def silent_def)
  qed
  have e: "store ?r = (store s)(name := None)" "streams ?r = streams s" "stopped ?r = stopped s"
    by simp_all
  from a b c d e show ?thesis
    by (intro conjI impI) blast+
qed

theorem remove_is_silent_witness:
  "list_all (\<lambda>x. \<not> writes ''a'' x) [StateValue ''b'' (JNum 2), Subscribe 0, OnDestroy] \<and>
   0 < length (streams
     (run [StateValueObs ''a'' None, StateValue ''a'' (JNum 1), Subscribe 0] new_service)) \<and>
   dname (streams
     (run [StateValueObs ''a'' None, StateValue ''a'' (JNum 1), Subscribe 0] new_service) ! 0)
     = ''a'' \<and>
   0 < length (observers (streams
     (run [StateValueObs ''a'' None, StateValue ''a'' (JNum 1), Subscribe 0] new_service) ! 0)) \<and>
   initial_of (None :: state_opts option) = JUndefined \<and>
   fst (stateValue_obs ''a'' (None :: state_opts option)
     (run [StateValue ''b'' (JNum 2), Subscribe 0, OnDestroy]
        (removeStateValue ''a''
           (run [StateValueObs ''a'' None, StateValue ''a'' (JNum 1), Subscribe 0]
              new_service)))) = Inr 1 \<and>
   list_all (\<lambda>x. \<not> writes ''a'' x) [Subscribe 1, StateValue ''b'' (JNum 3)] \<and>
   log 0 0 (run [StateValue ''b'' (JNum 2), Subscribe 0, OnDestroy]
     (removeStateValue ''a''
        (run [StateValueObs ''a'' None, StateValue ''a'' (JNum 1), Subscribe 0] new_service)))
     = [JNum 1] \<and>
   map received (observers (streams
     (run [Subscribe 1, StateValue ''b'' (JNum 3)]
        (snd (stateValue_obs ''a'' (None :: state_opts option)
           (run [StateValue ''b'' (JNum 2), Subscribe 0, OnDestroy]
              (removeStateValue ''a''
                 (run [StateValueObs ''a'' None, StateValue ''a'' (JNum 1), Subscribe 0]
                    new_service)))))) ! 1)) = [[]]"
  using remove_is_silent
    [of "''a''"
        "run [StateValueObs ''a'' None, StateValue ''a'' (JNum 1), Subscribe 0] new_service"
        "[StateValue ''b'' (JNum 2), Subscribe 0, OnDestroy]" 0 0 "None :: state_opts option" 1
        "[Subscribe 1, StateValue ''b'' (JNum 3)]"]
  by (simp add: service_defs)

text \<open>
  Against C9 as stated: an observable for the name is connected and has handed out a
  value; after the removal, and before any set, a new subscriber of it is given that
  value from the replay buffer.
\<close>

theorem replay_after_remove_counterexample:
  "\<not> hasStateValue ''a''
     (run [StateValueObs ''a'' None, StateValue ''a'' (JNum 1), Subscribe 0,
           RemoveStateValue ''a''] new_service) \<and>
   length (observers (streams
     (run [StateValueObs ''a'' None, StateValue ''a'' (JNum 1), Subscribe 0,
           RemoveStateValue ''a''] new_service) ! 0)) = 1 \<and>
   log 0 1
     (run [StateValueObs ''a'' None, StateValue ''a'' (JNum 1), Subscribe 0,
           RemoveStateValue ''a'', Subscribe 0] new_service) = [JNum 1]"
  by (simp add: service_defs)

text \<open>
  C10. In write mode (a value that is not \<^verbatim>\<open>undefined\<close>) \<^verbatim>\<open>stateValue\<close> stores the
  value and notifies, so that, in a service that has not been torn down, a subscriber
  of a connected observable from \<^verbatim>\<open>stateValue$\<close> for the name is given the value;
  and it returns \<^verbatim>\<open>undefined\<close>, not the value written; the read form that follows
  returns the value.
\<close>

theorem stateValue_write_returns_undefined:
  "v \<noteq> JUndefined \<Longrightarrow>
   fst (stateValue name v s) = JUndefined \<and>
   store (snd (stateValue name v s)) name = Some v \<and>
   fst (stateValue name JUndefined (snd (stateValue name v s))) = v \<and>
   (\<not> stopped s \<and> k < length (streams s) \<and> dname (streams s ! k) = name \<and>
    connected (streams s ! k) \<and> comparator (streams s ! k) = None \<and>
    i < length (observers (streams s ! k)) \<and> active (observers (streams s ! k) ! i) \<longrightarrow>
      log k i (snd (stateValue name v s)) = log k i s @ [v])"
  by (auto simp: stateValue_def get_value_def log_def next_updated_nth on_update_def
      check_now_def emit_def deliver_plain dest!: connectedD)

theorem stateValue_write_returns_undefined_witness:
  "JNum 7 \<noteq> JUndefined \<and>
   \<not> stopped (run [StateValueObs ''count'' None, Subscribe 0] new_service) \<and>
   connected (streams (run [StateValueObs ''count'' None, Subscribe 0] new_service) ! 0) \<and>
   active (observers (streams
     (run [StateValueObs ''count'' None, Subscribe 0] new_service) ! 0) ! 0) \<and>
   log 0 0 (run [StateValueObs ''count'' None, Subscribe 0] new_service) = [] \<and>
   fst (stateValue ''count'' (JNum 7)
     (run [StateValueObs ''count'' None, Subscribe 0] new_service)) = JUndefined \<and>
   log 0 0 (snd (stateValue ''count'' (JNum 7)
     (run [StateValueObs ''count'' None, Subscribe 0] new_service))) = [JNum 7] \<and>
   fst (stateValue ''count'' JUndefined (snd (stateValue ''count'' (JNum 7)
     (run [StateValueObs ''count'' None, Subscribe 0] new_service)))) = JNum 7"
  using stateValue_write_returns_undefined
    [of "JNum 7" "''count''" "run [StateValueObs ''count'' None, Subscribe 0] new_service" 0 0]
  by (simp add: service_defs connected_def)

end
